theory Spec2Isabelle
  imports
    Main
    "HOL-Library.AList"
    "HOL-Library.Sorting_Algorithms"
    "HOL-Library.List_Lexorder"
    "HOL-Library.Char_ord"
begin

section \<open>The report-component compiler (build/build-report-components.js)\<close>

text \<open>
  The script reads an HTML document, takes its \<^verbatim>\<open><template>\<close> elements and writes,
  for each of them, the source text of a JavaScript function that rebuilds the template's
  content with calls to a DOM helper, plus one dispatcher \<^verbatim>\<open>createComponent\<close>.

  The embedding keeps the script's own structure: \<open>upperFirst\<close>, \<open>createFunctionCode\<close>,
  \<open>compileTemplate\<close> with its inner \<open>makeOrGetVarName\<close> and \<open>process\<close>,
  \<open>makeGenericCreateComponentFunctionCode\<close> and \<open>main\<close>. The parsed document is the input:
  a list of templates, each a tree of element, text and comment nodes.
\<close>

subsection \<open>Strings and the built-in string operations the script calls\<close>

text \<open>
  JavaScript strings are modelled by \<^typ>\<open>string\<close>: a well-formed string is carried as the
  bytes of its UTF-8 encoding, so that a character of ASCII is one byte and any other
  character is a lead byte followed by continuation bytes. The operations below act on a
  well-formed string as the built-ins do, with one exception: \<open>charAt\<close> and \<open>substr\<close> count
  bytes and \<open>toUpperCase\<close> maps the letters of ASCII only, so \<open>upperFirst\<close>, and with it the
  name of a function, is modelled only for an identifier that is empty or starts with a
  character of ASCII.
\<close>

abbreviation sq :: string where
  "sq \<equiv> [CHR 0x27]"

abbreviation dq :: string where
  "dq \<equiv> [CHR 0x22]"

abbreviation backslash :: char where
  "backslash \<equiv> CHR 0x5C"

abbreviation nl :: string where
  "nl \<equiv> [CHR 0x0A]"

text \<open>\<^verbatim>\<open>Array.prototype.join\<close> on an array of strings.\<close>

fun join :: "string \<Rightarrow> string list \<Rightarrow> string" where
  "join sep [] = []"
| "join sep [x] = x"
| "join sep (x # y # ys) = x @ sep @ join sep (y # ys)"

text \<open>\<^verbatim>\<open>String.prototype.startsWith\<close> and \<^verbatim>\<open>String.prototype.endsWith\<close>.\<close>

definition startsWith :: "string \<Rightarrow> string \<Rightarrow> bool" where
  "startsWith s p \<longleftrightarrow> take (length p) s = p"

definition endsWith :: "string \<Rightarrow> string \<Rightarrow> bool" where
  "endsWith s suf \<longleftrightarrow> length suf \<le> length s \<and> drop (length s - length suf) s = suf"

text \<open>
  The characters matched by \<^verbatim>\<open>\s\<close> and stripped by \<^verbatim>\<open>trim()\<close> are the white space and
  line terminator code points of ECMAScript: U+0009 to U+000D, U+0020, U+00A0, U+1680,
  U+2000 to U+200A, U+2028, U+2029, U+202F, U+205F, U+3000 and U+FEFF. \<open>white_space\<close> lists
  their encodings. An encoding starts with a byte of ASCII or with a lead byte, never with
  a continuation byte, so in a well-formed string it occurs only where the character does.
\<close>

definition white_space :: "string list" where
  "white_space =
     [CHR 0x09] # [CHR 0x0A] # [CHR 0x0B] # [CHR 0x0C] # [CHR 0x0D] # [CHR 0x20]
     # [CHR 0xC2, CHR 0xA0]
     # [CHR 0xE1, CHR 0x9A, CHR 0x80]
     # [CHR 0xE2, CHR 0x80, CHR 0x80] # [CHR 0xE2, CHR 0x80, CHR 0x81]
     # [CHR 0xE2, CHR 0x80, CHR 0x82] # [CHR 0xE2, CHR 0x80, CHR 0x83]
     # [CHR 0xE2, CHR 0x80, CHR 0x84] # [CHR 0xE2, CHR 0x80, CHR 0x85]
     # [CHR 0xE2, CHR 0x80, CHR 0x86] # [CHR 0xE2, CHR 0x80, CHR 0x87]
     # [CHR 0xE2, CHR 0x80, CHR 0x88] # [CHR 0xE2, CHR 0x80, CHR 0x89]
     # [CHR 0xE2, CHR 0x80, CHR 0x8A]
     # [CHR 0xE2, CHR 0x80, CHR 0xA8] # [CHR 0xE2, CHR 0x80, CHR 0xA9]
     # [CHR 0xE2, CHR 0x80, CHR 0xAF]
     # [CHR 0xE2, CHR 0x81, CHR 0x9F]
     # [CHR 0xE3, CHR 0x80, CHR 0x80]
     # [CHR 0xEF, CHR 0xBB, CHR 0xBF] # []"

text \<open>The number of bytes of the white-space character that a string starts with, or ends
  with; zero when it starts, or ends, with none.\<close>

definition ws_length :: "string \<Rightarrow> nat" where
  "ws_length s = (case find (startsWith s) white_space of None \<Rightarrow> 0 | Some p \<Rightarrow> length p)"

definition ws_length_end :: "string \<Rightarrow> nat" where
  "ws_length_end s = (case find (endsWith s) white_space of None \<Rightarrow> 0 | Some p \<Rightarrow> length p)"

text \<open>\<^verbatim>\<open>String.prototype.trim\<close>: the white space at the start and at the end is removed.\<close>

function trimStart :: "string \<Rightarrow> string" where
  "trimStart s = (if ws_length s = 0 then s else trimStart (drop (ws_length s) s))"
  by pat_completeness auto
termination
proof (relation "measure length", goal_cases)
  case 1
  show ?case by simp
next
  case (2 s)
  have "ws_length [] = 0"
    by (simp add: ws_length_def white_space_def startsWith_def)
  with 2 have "s \<noteq> []"
    by auto
  with 2 show ?case
    by simp
qed

function trimEnd :: "string \<Rightarrow> string" where
  "trimEnd s = (if ws_length_end s = 0 then s else trimEnd (take (length s - ws_length_end s) s))"
  by pat_completeness auto
termination
proof (relation "measure length", goal_cases)
  case 1
  show ?case by simp
next
  case (2 s)
  have "ws_length_end [] = 0"
    by (simp add: ws_length_end_def white_space_def endsWith_def)
  with 2 have "s \<noteq> []"
    by auto
  with 2 show ?case
    by simp
qed

declare trimStart.simps [simp del] trimEnd.simps [simp del]

definition trim :: "string \<Rightarrow> string" where
  "trim s = trimEnd (trimStart s)"

text \<open>\<^verbatim>\<open>str.replace(/\s+/g, ' ')\<close>: scanning from the left, a white-space character and
  all the white space that follows it become one space; any other byte is copied.\<close>

function replace_ws :: "string \<Rightarrow> string" where
  "replace_ws [] = []"
| "replace_ws (c # cs) =
     (if ws_length (c # cs) = 0 then c # replace_ws cs
      else CHR '' '' # replace_ws (trimStart (c # cs)))"
  by pat_completeness auto
termination
proof (relation "measure length", goal_cases)
  case 1
  show ?case by simp
next
  case (2 c cs)
  show ?case by simp
next
  case (3 c cs)
  have le: "length (trimStart s) \<le> length s" for s
  proof (induction s rule: trimStart.induct)
    case (1 s)
    show ?case
    proof (cases "ws_length s = 0")
      case True
      then show ?thesis
        by (subst trimStart.simps) simp
    next
      case False
      with "1.IH" have "length (trimStart (drop (ws_length s) s)) \<le> length s"
        by simp
      with False show ?thesis
        by (subst trimStart.simps) simp
    qed
  qed
  from 3 have "trimStart (c # cs) = trimStart (drop (ws_length (c # cs)) (c # cs))"
    by (subst trimStart.simps) simp
  then have "length (trimStart (c # cs)) \<le> length (drop (ws_length (c # cs)) (c # cs))"
    by (simp only: le)
  with 3 show ?case
    by simp
qed

text \<open>\<^verbatim>\<open>charAt\<close>, \<^verbatim>\<open>substr\<close> with one argument, and \<^verbatim>\<open>toUpperCase\<close>.\<close>

definition charAt :: "string \<Rightarrow> nat \<Rightarrow> string" where
  "charAt s i = (if i < length s then [s ! i] else [])"

definition substr :: "string \<Rightarrow> nat \<Rightarrow> string" where
  "substr s i = drop i s"

definition toUpperCase_char :: "char \<Rightarrow> char" where
  "toUpperCase_char c =
     (let n = (of_char c :: nat) in if 97 \<le> n \<and> n \<le> 122 then char_of (n - 32) else c)"

definition toUpperCase :: "string \<Rightarrow> string" where
  "toUpperCase s = map toUpperCase_char s"

text \<open>The decimal text of a number, as string concatenation with a number produces it.\<close>

definition digit_char :: "nat \<Rightarrow> char" where
  "digit_char d = char_of (48 + d)"

fun string_of_nat :: "nat \<Rightarrow> string" where
  "string_of_nat n =
     (if n < 10 then [digit_char n] else string_of_nat (n div 10) @ [digit_char (n mod 10)])"

declare string_of_nat.simps [simp del]

text \<open>\<^verbatim>\<open>JSON.stringify\<close> of a string: the text between double quotes, with the quote, the
  backslash and the control characters escaped.\<close>

definition hex_char :: "nat \<Rightarrow> char" where
  "hex_char d = (if d < 10 then char_of (48 + d) else char_of (87 + d))"

definition json_escape :: "char \<Rightarrow> string" where
  "json_escape c =
     (if c = CHR 0x08 then [backslash, CHR ''b'']
      else if c = CHR 0x09 then [backslash, CHR ''t'']
      else if c = CHR 0x0A then [backslash, CHR ''n'']
      else if c = CHR 0x0C then [backslash, CHR ''f'']
      else if c = CHR 0x0D then [backslash, CHR ''r'']
      else if c = CHR 0x22 then [backslash, CHR 0x22]
      else if c = backslash then [backslash, backslash]
      else if (of_char c :: nat) < 32
        then [backslash, CHR ''u'', CHR ''0'', CHR ''0'',
              hex_char (of_char c div 16), hex_char (of_char c mod 16)]
      else [c])"

definition JSON_stringify :: "string \<Rightarrow> string" where
  "JSON_stringify s = dq @ concat (map json_escape s) @ dq"

subsection \<open>upperFirst and createFunctionCode\<close>

definition upperFirst :: "string \<Rightarrow> string" where
  "upperFirst str = toUpperCase (charAt str 0) @ substr str 1"

definition createFunctionCode :: "string \<Rightarrow> string list \<Rightarrow> string list \<Rightarrow> string" where
  "createFunctionCode functionName bodyLines parameterNames =
     (let body = join nl (map (\<lambda>l. ''  '' @ l) bodyLines)
      in ''function '' @ functionName @ ''('' @ join '', '' parameterNames @ '') {'' @ nl
           @ body @ nl @ ''}'')"

subsection \<open>The parsed document\<close>

text \<open>
  The DOM is the script's input. A node is an element, a text node or a comment; an element
  carries the properties the script reads: \<open>namespaceURI\<close> (which may be null),
  \<open>localName\<close>, \<open>tagName\<close>, its attributes in declaration order and its \<open>childNodes\<close>.
\<close>

datatype element =
  Element (namespaceURI: "string option") (localName: string) (tagName: string)
    (attributes: "(string \<times> string) list") (childNodes: "node list")
and node =
    ElementNode element
  | TextNode (textContent: string)
  | CommentNode string

text \<open>A template element: its \<open>id\<close> attribute, if it has one, and the child nodes of its
  content fragment.\<close>

record template =
  id_attribute :: "string option"
  content :: "node list"

text \<open>\<^verbatim>\<open>tmpEl.id\<close> reflects the attribute: the empty string when there is none.\<close>

definition template_id :: "template \<Rightarrow> string" where
  "template_id t = (case id_attribute t of None \<Rightarrow> [] | Some s \<Rightarrow> s)"

text \<open>\<^verbatim>\<open>el.classList.toString()\<close>: the class list of an element reflects its \<open>class\<close>
  attribute, and its string is the value of that attribute as it is written in the
  document, the empty string when the element has no such attribute.\<close>

definition classList_toString :: "element \<Rightarrow> string" where
  "classList_toString el = (case map_of (attributes el) ''class'' of None \<Rightarrow> [] | Some v \<Rightarrow> v)"

text \<open>\<^verbatim>\<open>el.getAttributeNames()\<close> and \<^verbatim>\<open>el.getAttribute(name)\<close>; a \<^verbatim>\<open>null\<close> result is
  printed as \<^verbatim>\<open>null\<close> by the template literal that uses it.\<close>

definition getAttributeNames :: "element \<Rightarrow> string list" where
  "getAttributeNames el = map fst (attributes el)"

definition getAttribute :: "element \<Rightarrow> string \<Rightarrow> string" where
  "getAttribute el attr = (case map_of (attributes el) attr of Some v \<Rightarrow> v | None \<Rightarrow> ''null'')"

subsection \<open>compileTemplate: the variable table\<close>

text \<open>
  \<open>elemToVarNames\<close> is a \<^verbatim>\<open>Map\<close> keyed by node identity. A node is identified by its
  position: \<open>[]\<close> is the template element, \<open>[i]\<close> the \<open>i\<close>-th child node of its content and
  \<open>r @ [j]\<close> the \<open>j\<close>-th child node of the node at \<open>r\<close>. The map keeps its entries in insertion
  order; its \<open>size\<close> is the number of entries.
\<close>

type_synonym node_ref = "nat list"

record compile_state =
  elemToVarNames :: "(node_ref \<times> string) list"
  lines :: "string list"

definition push :: "string \<Rightarrow> compile_state \<Rightarrow> compile_state" where
  "push l st = st\<lparr>lines := lines st @ [l]\<rparr>"

definition makeOrGetVarName :: "node_ref \<Rightarrow> compile_state \<Rightarrow> string \<times> compile_state" where
  "makeOrGetVarName el st =
     (let fresh = ''v'' @ string_of_nat (length (elemToVarNames st));
          varName = (case map_of (elemToVarNames st) el of
                       Some v \<Rightarrow> if v \<noteq> [] then v else fresh
                     | None \<Rightarrow> fresh)
      in (varName, st\<lparr>elemToVarNames := AList.update el varName (elemToVarNames st)\<rparr>))"

subsection \<open>compileTemplate: process\<close>

text \<open>The name of the creation function and its arguments (lines 58 to 71).\<close>

definition isSvg :: "element \<Rightarrow> bool" where
  "isSvg el = (case namespaceURI el of None \<Rightarrow> False | Some u \<Rightarrow> u \<noteq> [] \<and> endsWith u ''/svg'')"

definition creation_namespaceURI :: "element \<Rightarrow> string" where
  "creation_namespaceURI el =
     (if isSvg el then (case namespaceURI el of None \<Rightarrow> [] | Some u \<Rightarrow> u) else [])"

definition creation_call :: "element \<Rightarrow> string \<times> string list" where
  "creation_call el =
     (let className = classList_toString el;
          args = [localName el] @ (if className \<noteq> [] then [className] else [])
      in if creation_namespaceURI el \<noteq> []
         then (''createElementNS'', creation_namespaceURI el # args)
         else (''createElement'', args))"

text \<open>The set-attribute statements (lines 76 to 82).\<close>

definition setAttribute_line :: "string \<Rightarrow> element \<Rightarrow> string \<Rightarrow> string" where
  "setAttribute_line varName el attr =
     varName @ ''.setAttribute('' @ sq @ attr @ sq @ '', '' @ sq @ getAttribute el attr @ sq @ '');''"

definition setAttribute_lines :: "string \<Rightarrow> element \<Rightarrow> string list" where
  "setAttribute_lines varName el =
     map (setAttribute_line varName el) (filter (\<lambda>attr. attr \<noteq> ''class'') (getAttributeNames el))"

text \<open>
  The body of the child loop for a text node (lines 89 to 122). \<open>parentElement\<close> is the tag
  name of the node's parent element, \<open>None\<close> when \<^verbatim>\<open>childNode.parentElement\<close> is null;
  \<open>previousSibling\<close> and \<open>nextSibling\<close> are the neighbouring nodes, \<open>None\<close> when there is
  none. The result is the literal pushed on \<open>childNodesToAppend\<close>, \<open>None\<close> when the loop
  continues without pushing.
\<close>

definition siblingElement :: "node option \<Rightarrow> element option" where
  "siblingElement sibling =
     (case sibling of Some (ElementNode e) \<Rightarrow> Some e | _ \<Rightarrow> None)"

definition allowJustWhitespace :: "node option \<Rightarrow> node option \<Rightarrow> bool" where
  "allowJustWhitespace previousSibling nextSibling =
     (case (siblingElement previousSibling, siblingElement nextSibling) of
        (Some p, Some n) \<Rightarrow> tagName p = ''SPAN'' \<or> tagName n = ''SPAN''
      | _ \<Rightarrow> False)"

definition process_text ::
  "string option \<Rightarrow> node option \<Rightarrow> node option \<Rightarrow> string \<Rightarrow> string option" where
  "process_text parentElement previousSibling nextSibling text =
     (case parentElement of
        None \<Rightarrow> None
      | Some parentTagName \<Rightarrow>
          if text = [] then None
          else if \<not> allowJustWhitespace previousSibling nextSibling \<and> trim text = [] then None
          else Some (JSON_stringify
                 (if parentTagName \<in> set [''PRE'', ''STYLE''] then text else replace_ws text)))"

definition nextSibling_of :: "node list \<Rightarrow> node option" where
  "nextSibling_of rest = (case rest of [] \<Rightarrow> None | n # _ \<Rightarrow> Some n)"

text \<open>
  \<open>process\<close> and its loop over \<open>el.childNodes\<close>. \<open>serializeArguments\<close> is imported from
  lighthouse-core/gather/driver/execution-context.js, which is not among the sources: it is
  the parameter \<open>ser\<close>. The loop carries the parent's tag name and position, the index of
  the current child, its previous sibling and the list \<open>childNodesToAppend\<close>.
\<close>

fun process ::
    "(string list \<Rightarrow> string) \<Rightarrow> node_ref \<Rightarrow> element \<Rightarrow> compile_state \<Rightarrow> compile_state"
  and process_childNodes ::
    "(string list \<Rightarrow> string) \<Rightarrow> string \<Rightarrow> node_ref \<Rightarrow> nat \<Rightarrow> node option \<Rightarrow> node list
       \<Rightarrow> compile_state \<Rightarrow> string list \<Rightarrow> compile_state \<times> string list"
where
  "process ser r (Element ns ln tn attrs kids) st =
     (let el = Element ns ln tn attrs kids;
          (createElementFnName, args) = creation_call el;
          (varName, st1) = makeOrGetVarName r st;
          st2 = push (''const '' @ varName @ '' = dom.'' @ createElementFnName
                       @ ''('' @ ser args @ '');'') st1;
          st3 = st2\<lparr>lines := lines st2 @ setAttribute_lines varName el\<rparr>;
          (st4, childNodesToAppend) = process_childNodes ser tn r 0 None kids st3 []
      in if childNodesToAppend \<noteq> []
         then push (varName @ ''.append('' @ join '','' childNodesToAppend @ '');'') st4
         else st4)"
| "process_childNodes ser parentTagName r i previousSibling [] st acc = (st, acc)"
| "process_childNodes ser parentTagName r i previousSibling (CommentNode c # rest) st acc =
     process_childNodes ser parentTagName r (Suc i) (Some (CommentNode c)) rest st acc"
| "process_childNodes ser parentTagName r i previousSibling (TextNode text # rest) st acc =
     process_childNodes ser parentTagName r (Suc i) (Some (TextNode text)) rest st
       (case process_text (Some parentTagName) previousSibling (nextSibling_of rest) text of
          None \<Rightarrow> acc
        | Some literal \<Rightarrow> acc @ [literal])"
| "process_childNodes ser parentTagName r i previousSibling (ElementNode e # rest) st acc =
     (let st1 = process ser (r @ [i]) e st;
          acc1 = (case map_of (elemToVarNames st1) (r @ [i]) of
                    Some childVarName \<Rightarrow> if childVarName \<noteq> [] then acc @ [childVarName] else acc
                  | None \<Rightarrow> acc)
      in process_childNodes ser parentTagName r (Suc i) (Some (ElementNode e)) rest st1 acc1)"

subsection \<open>compileTemplate\<close>

text \<open>The loop over \<^verbatim>\<open>tmpEl.content.children\<close>: the element children of the content, in
  order (lines 140 to 143).\<close>

fun process_topLevel ::
  "(string list \<Rightarrow> string) \<Rightarrow> string \<Rightarrow> nat \<Rightarrow> node list \<Rightarrow> compile_state \<Rightarrow> compile_state"
where
  "process_topLevel ser fragmentVarName i [] st = st"
| "process_topLevel ser fragmentVarName i (ElementNode e # rest) st =
     (let st1 = process ser [i] e st;
          (topLevelVarName, st2) = makeOrGetVarName [i] st1;
          st3 = push (fragmentVarName @ ''.append('' @ topLevelVarName @ '');'') st2
      in process_topLevel ser fragmentVarName (Suc i) rest st3)"
| "process_topLevel ser fragmentVarName i (_ # rest) st =
     process_topLevel ser fragmentVarName (Suc i) rest st"

text \<open>The state when the walk of one template ends (lines 41 to 145).\<close>

definition compile_walk :: "(string list \<Rightarrow> string) \<Rightarrow> template \<Rightarrow> compile_state" where
  "compile_walk ser tmpEl =
     (let st0 = \<lparr>elemToVarNames = [], lines = []\<rparr>;
          (fragmentVarName, st1) = makeOrGetVarName [] st0;
          st2 = push (''const '' @ fragmentVarName
                       @ '' = dom.document().createDocumentFragment();'') st1;
          st3 = process_topLevel ser fragmentVarName 0 (content tmpEl) st2
      in push (''return '' @ fragmentVarName @ '';'') st3)"

record processed_template =
  tmpEl :: template
  componentName :: string
  functionName :: string
  functionCode :: string

definition component_jsdoc :: string where
  "component_jsdoc = nl @ ''/**'' @ nl @ '' * @param {DOM} dom'' @ nl @ '' */''"

definition compileTemplate :: "(string list \<Rightarrow> string) \<Rightarrow> template \<Rightarrow> processed_template" where
  "compileTemplate ser t =
     (let body = lines (compile_walk ser t);
          name = template_id t;
          fname = ''create'' @ upperFirst name @ ''Component''
      in \<lparr>tmpEl = t, componentName = name, functionName = fname,
          functionCode = component_jsdoc @ nl @ createFunctionCode fname body [''dom'']\<rparr>)"

subsection \<open>makeGenericCreateComponentFunctionCode\<close>

definition case_line :: "processed_template \<Rightarrow> string" where
  "case_line t =
     ''  case '' @ sq @ componentName t @ sq @ '': return '' @ functionName t @ ''(dom);''"

definition throw_line :: string where
  "throw_line = ''throw new Error('unexpected component: ' + componentName)''"

definition dispatcher_lines :: "processed_template list \<Rightarrow> string list" where
  "dispatcher_lines processedTemplates =
     [''switch (componentName) {''] @ map case_line processedTemplates @ [''}''] @ [throw_line]"

definition dispatcher_jsdoc :: "processed_template list \<Rightarrow> string" where
  "dispatcher_jsdoc processedTemplates =
     (let paramType = join ''|'' (map (\<lambda>t. sq @ componentName t @ sq) processedTemplates)
      in nl @ ''/** @typedef {'' @ paramType @ ''} ComponentName */'' @ nl
           @ ''/**'' @ nl
           @ '' * @param {DOM} dom'' @ nl
           @ '' * @param {ComponentName} componentName'' @ nl
           @ '' * @return {DocumentFragment}'' @ nl
           @ '' */'')"

definition makeGenericCreateComponentFunctionCode :: "processed_template list \<Rightarrow> string" where
  "makeGenericCreateComponentFunctionCode processedTemplates =
     dispatcher_jsdoc processedTemplates @ nl @ ''export ''
       @ createFunctionCode ''createComponent'' (dispatcher_lines processedTemplates)
           [''dom'', ''componentName'']"

subsection \<open>main\<close>

text \<open>
  \<open>tmplEls\<close> is the result of \<^verbatim>\<open>querySelectorAll('template')\<close>, in document order.
  \<^verbatim>\<open>localeCompare\<close> is a built-in whose collation depends on the JavaScript engine: it is
  the parameter \<open>localeCompare\<close>, a comparator. \<^verbatim>\<open>Array.prototype.sort\<close> is stable.
  \<open>main\<close> returns the text it writes to report/renderer/components.js.
\<close>

definition processedTemplates ::
  "(string list \<Rightarrow> string) \<Rightarrow> string comparator \<Rightarrow> template list \<Rightarrow> processed_template list"
where
  "processedTemplates ser localeCompare tmplEls =
     sort (key componentName localeCompare) (map (compileTemplate ser) tmplEls)"

definition code_header :: string where
  "code_header =
     ''    'use strict';'' @ nl @ nl
     @ ''    // auto-generated by build/build-report-components.js'' @ nl @ nl
     @ ''    /** @typedef {import('./dom.js').DOM} DOM */'' @ nl @ nl
     @ ''    /* eslint-disable max-len */'' @ nl @ nl"

definition main :: "(string list \<Rightarrow> string) \<Rightarrow> string comparator \<Rightarrow> template list \<Rightarrow> string" where
  "main ser localeCompare tmplEls =
     (let pts = processedTemplates ser localeCompare tmplEls
      in trim (nl @ code_header
                @ ''    '' @ join nl (map functionCode pts) @ nl @ nl
                @ ''    '' @ makeGenericCreateComponentFunctionCode pts @ nl
                @ ''  ''))"

subsection \<open>Reading the generated text\<close>

text \<open>
  What the claims say about the generated statements is stated through readers of the
  generated text. They follow JavaScript's lexical rules for the forms the compiler emits:
  a string literal ends at the first unescaped quote of its kind and may not contain a line
  break; an identifier is made of letters, digits, \<^verbatim>\<open>_\<close> and \<^verbatim>\<open>$\<close>.
\<close>

definition strip_prefix :: "string \<Rightarrow> string \<Rightarrow> string option" where
  "strip_prefix p s = (if take (length p) s = p then Some (drop (length p) s) else None)"

definition is_ident_char :: "char \<Rightarrow> bool" where
  "is_ident_char c =
     (let n = (of_char c :: nat)
      in (48 \<le> n \<and> n \<le> 57) \<or> (65 \<le> n \<and> n \<le> 90) \<or> (97 \<le> n \<and> n \<le> 122)
         \<or> c = CHR ''_'' \<or> c = CHR ''$'')"

text \<open>The text of a single-quoted literal, read from just after its opening quote, and
  what follows its closing quote. Escape sequences are not interpreted: a literal with a
  backslash is not accepted.\<close>

fun read_sq_literal :: "string \<Rightarrow> (string \<times> string) option" where
  "read_sq_literal [] = None"
| "read_sq_literal (c # cs) =
     (if c = CHR 0x27 then Some ([], cs)
      else if c = backslash \<or> c = CHR 0x0A \<or> c = CHR 0x0D then None
      else (case read_sq_literal cs of
              None \<Rightarrow> None
            | Some (v, rest) \<Rightarrow> Some (c # v, rest)))"

text \<open>A statement \<^verbatim>\<open>VAR.setAttribute('NAME', 'VALUE');\<close> read back as its variable, name
  and value.\<close>

definition read_setAttribute :: "string \<Rightarrow> (string \<times> string \<times> string) option" where
  "read_setAttribute l =
     (let var = takeWhile is_ident_char l
      in case strip_prefix (''.setAttribute('' @ sq) (dropWhile is_ident_char l) of
           None \<Rightarrow> None
         | Some r1 \<Rightarrow>
             (case read_sq_literal r1 of
                None \<Rightarrow> None
              | Some (name, r2) \<Rightarrow>
                  (case strip_prefix ('', '' @ sq) r2 of
                     None \<Rightarrow> None
                   | Some r3 \<Rightarrow>
                       (case read_sq_literal r3 of
                          None \<Rightarrow> None
                        | Some (val, r4) \<Rightarrow>
                            if r4 = '');'' \<and> var \<noteq> [] then Some (var, name, val) else None))))"

text \<open>A line \<^verbatim>\<open>  case 'LABEL': return CALLEE(dom);\<close> read back as its label and the name
  of the function it calls.\<close>

definition read_case_line :: "string \<Rightarrow> (string \<times> string) option" where
  "read_case_line l =
     (case strip_prefix (''  case '' @ sq) l of
        None \<Rightarrow> None
      | Some r1 \<Rightarrow>
          (case read_sq_literal r1 of
             None \<Rightarrow> None
           | Some (label, r2) \<Rightarrow>
               (case strip_prefix '': return '' r2 of
                  None \<Rightarrow> None
                | Some r3 \<Rightarrow>
                    if dropWhile is_ident_char r3 = ''(dom);'' \<and> takeWhile is_ident_char r3 \<noteq> []
                    then Some (label, takeWhile is_ident_char r3) else None)))"

fun read_cases :: "string list \<Rightarrow> ((string \<times> string) list \<times> string list) option" where
  "read_cases [] = None"
| "read_cases (l # ls) =
     (if l = ''}'' then Some ([], ls)
      else (case read_case_line l of
              None \<Rightarrow> None
            | Some c \<Rightarrow>
                (case read_cases ls of
                   None \<Rightarrow> None
                 | Some (cs, rest) \<Rightarrow> Some (c # cs, rest))))"

text \<open>The throw statement \<^verbatim>\<open>throw new Error('TEXT' + componentName)\<close> read back as the
  text that its message starts with.\<close>

definition read_throw_line :: "string \<Rightarrow> string option" where
  "read_throw_line l =
     (case strip_prefix (''throw new Error('' @ sq) l of
        None \<Rightarrow> None
      | Some r1 \<Rightarrow>
          (case read_sq_literal r1 of
             None \<Rightarrow> None
           | Some (msg, r2) \<Rightarrow> if r2 = '' + componentName)'' then Some msg else None))"

text \<open>The body of the generated \<^verbatim>\<open>createComponent\<close> read as a switch over
  \<^verbatim>\<open>componentName\<close> followed by one throw statement: \<open>read_dispatcher\<close> gives the cases,
  \<open>read_throw\<close> the text that starts the message of the throw statement.\<close>

definition read_dispatcher :: "string list \<Rightarrow> (string \<times> string) list option" where
  "read_dispatcher body =
     (case body of
        [] \<Rightarrow> None
      | h # ls \<Rightarrow>
          if h = ''switch (componentName) {''
          then (case read_cases ls of
                  None \<Rightarrow> None
                | Some (cs, rest) \<Rightarrow>
                    (case map read_throw_line rest of [Some msg] \<Rightarrow> Some cs | _ \<Rightarrow> None))
          else None)"













text \<open>
  The white-space rule in the spec's words. A string is only white space when it is empty
  or starts with a white-space character and the rest is only white space. A string is cut
  into its maximal runs of white space and of other text, and every run of white space
  becomes one space.
\<close>

function only_white_space :: "string \<Rightarrow> bool" where
  "only_white_space s \<longleftrightarrow>
     (if s = [] then True
      else if ws_length s = 0 then False
      else only_white_space (drop (ws_length s) s))"
  by pat_completeness auto
termination
proof (relation "measure length", goal_cases)
  case 1
  show ?case by simp
next
  case (2 s)
  then show ?case
    by simp
qed

declare only_white_space.simps [simp del]

fun skip_non_ws :: "string \<Rightarrow> string" where
  "skip_non_ws [] = []"
| "skip_non_ws (c # cs) = (if ws_length (c # cs) = 0 then skip_non_ws cs else c # cs)"

function runs :: "string \<Rightarrow> string list" where
  "runs [] = []"
| "runs (c # cs) =
     (if ws_length (c # cs) = 0
      then take (length (c # cs) - length (skip_non_ws (c # cs))) (c # cs)
             # runs (skip_non_ws (c # cs))
      else take (length (c # cs) - length (trimStart (c # cs))) (c # cs)
             # runs (trimStart (c # cs)))"
  by pat_completeness auto
termination
proof (relation "measure length", goal_cases)
  case 1
  show ?case by simp
next
  case (2 c cs)
  have "length (skip_non_ws s) \<le> length s" for s
    by (induction s) auto
  from this [of cs] 2 show ?case
    by simp
next
  case (3 c cs)
  have le: "length (trimStart s) \<le> length s" for s
  proof (induction s rule: trimStart.induct)
    case (1 s)
    show ?case
    proof (cases "ws_length s = 0")
      case True
      then show ?thesis
        by (subst trimStart.simps) simp
    next
      case False
      with "1.IH" have "length (trimStart (drop (ws_length s) s)) \<le> length s"
        by simp
      with False show ?thesis
        by (subst trimStart.simps) simp
    qed
  qed
  from 3 have "trimStart (c # cs) = trimStart (drop (ws_length (c # cs)) (c # cs))"
    by (subst trimStart.simps) simp
  then have "length (trimStart (c # cs)) \<le> length (drop (ws_length (c # cs)) (c # cs))"
    by (simp only: le)
  with 3 show ?case
    by simp
qed


text \<open>Modelled from the spec: \<open>serializeArguments\<close> is defined in
  lighthouse-core/gather/driver/execution-context.js, which is not among the sources; the
  spec calls it the literal-expression renderer, which renders each value as a source
  literal. \<open>process\<close> takes the renderer as a parameter; in the examples every argument is
  written by \<open>JSON_stringify\<close> and the results are separated by commas.\<close>

definition serializeArguments :: "string list \<Rightarrow> string" where
  "serializeArguments args = join '','' (map JSON_stringify args)"

text \<open>The siblings of a text node in the spec's words: an element on both sides, at least
  one of the two a span.\<close>

definition flanked_by_span :: "node option \<Rightarrow> node option \<Rightarrow> bool" where
  "flanked_by_span previousSibling nextSibling \<longleftrightarrow>
     (\<exists>p n. previousSibling = Some (ElementNode p) \<and> nextSibling = Some (ElementNode n)
        \<and> (tagName p = ''SPAN'' \<or> tagName n = ''SPAN''))"

text \<open>An element as the parser builds it for an HTML tag: the XHTML namespace, and the tag
  name in upper case. Used to write examples.\<close>

definition html_element :: "string \<Rightarrow> (string \<times> string) list \<Rightarrow> node list \<Rightarrow> element" where
  "html_element name attrs kids =
     Element (Some ''http://www.w3.org/1999/xhtml'') name (toUpperCase name) attrs kids"

text \<open>
  The steps of \<open>process\<close> as functions of their own; \<open>process\<close> is their composition
  (\<open>process_steps\<close> below), which is the form used to evaluate examples.
\<close>

definition open_element ::
  "(string list \<Rightarrow> string) \<Rightarrow> element \<Rightarrow> string \<times> compile_state \<Rightarrow> compile_state" where
  "open_element ser el p =
     (snd p)\<lparr>lines := lines (snd p)
        @ [''const '' @ fst p @ '' = dom.'' @ fst (creation_call el)
             @ ''('' @ ser (snd (creation_call el)) @ '');'']
        @ setAttribute_lines (fst p) el\<rparr>"

definition close_element :: "string \<Rightarrow> compile_state \<times> string list \<Rightarrow> compile_state" where
  "close_element varName p =
     (if snd p \<noteq> []
      then push (varName @ ''.append('' @ join '','' (snd p) @ '');'') (fst p)
      else fst p)"

definition child_done ::
  "node_ref \<Rightarrow> string list \<Rightarrow> compile_state \<Rightarrow> compile_state \<times> string list" where
  "child_done k acc st1 =
     (st1, (case map_of (elemToVarNames st1) k of
              Some childVarName \<Rightarrow> if childVarName \<noteq> [] then acc @ [childVarName] else acc
            | None \<Rightarrow> acc))"

definition childNodes_loop ::
  "(string list \<Rightarrow> string) \<Rightarrow> string \<Rightarrow> node_ref \<Rightarrow> nat \<Rightarrow> node option \<Rightarrow> node list
     \<Rightarrow> compile_state \<times> string list \<Rightarrow> compile_state \<times> string list" where
  "childNodes_loop ser parentTagName r i previousSibling kids p =
     process_childNodes ser parentTagName r i previousSibling kids (fst p) (snd p)"

definition topLevel_done :: "string \<Rightarrow> string \<times> compile_state \<Rightarrow> compile_state" where
  "topLevel_done fragmentVarName p =
     push (fragmentVarName @ ''.append('' @ fst p @ '');'') (snd p)"





text \<open>The variable table as it should be: no node twice, and the names \<^verbatim>\<open>v0\<close>, \<^verbatim>\<open>v1\<close>, ...
  in the order of insertion.\<close>

definition var_table_ok :: "(node_ref \<times> string) list \<Rightarrow> bool" where
  "var_table_ok tbl \<longleftrightarrow>
     distinct (map fst tbl)
     \<and> map snd tbl = map (\<lambda>n. ''v'' @ string_of_nat n) [0..<length tbl]"

section \<open>Evaluation\<close>

lemma process_steps [code]:
  "process ser r (Element ns ln tn attrs kids) st =
     close_element (fst (makeOrGetVarName r st))
       (childNodes_loop ser tn r 0 None kids
          (open_element ser (Element ns ln tn attrs kids) (makeOrGetVarName r st), []))"
  by (cases "makeOrGetVarName r st"; cases "creation_call (Element ns ln tn attrs kids)")
    (simp add: Let_def open_element_def close_element_def childNodes_loop_def push_def
       split: prod.splits)

declare process.simps [simp del]

lemma childNodes_loop_steps [code]:
  "childNodes_loop ser ptag r i prev [] p = p"
  "childNodes_loop ser ptag r i prev (CommentNode c # rest) p =
     childNodes_loop ser ptag r (Suc i) (Some (CommentNode c)) rest p"
  "childNodes_loop ser ptag r i prev (TextNode str # rest) p =
     childNodes_loop ser ptag r (Suc i) (Some (TextNode str)) rest
       (fst p, case process_text (Some ptag) prev (nextSibling_of rest) str of
                 None \<Rightarrow> snd p
               | Some literal \<Rightarrow> snd p @ [literal])"
  "childNodes_loop ser ptag r i prev (ElementNode e # rest) p =
     childNodes_loop ser ptag r (Suc i) (Some (ElementNode e)) rest
       (child_done (r @ [i]) (snd p) (process ser (r @ [i]) e (fst p)))"
  by (simp_all add: childNodes_loop_def child_done_def Let_def)

lemma process_childNodes_steps [code]:
  "process_childNodes ser ptag r i prev kids st acc =
     childNodes_loop ser ptag r i prev kids (st, acc)"
  by (simp add: childNodes_loop_def)

lemma process_topLevel_steps [code]:
  "process_topLevel ser fragmentVarName i [] st = st"
  "process_topLevel ser fragmentVarName i (ElementNode e # rest) st =
     process_topLevel ser fragmentVarName (Suc i) rest
       (topLevel_done fragmentVarName (makeOrGetVarName [i] (process ser [i] e st)))"
  "process_topLevel ser fragmentVarName i (TextNode str # rest) st =
     process_topLevel ser fragmentVarName (Suc i) rest st"
  "process_topLevel ser fragmentVarName i (CommentNode c # rest) st =
     process_topLevel ser fragmentVarName (Suc i) rest st"
  by (simp_all add: topLevel_done_def Let_def split: prod.splits)

lemma string_of_nat_0: "string_of_nat 0 = ''0''"
  by (simp add: string_of_nat.simps digit_char_def) code_simp

lemma makeOrGetVarName_root:
  "makeOrGetVarName [] \<lparr>elemToVarNames = [], lines = []\<rparr>
     = (''v0'', \<lparr>elemToVarNames = [([], ''v0'')], lines = []\<rparr>)"
  by (simp add: makeOrGetVarName_def string_of_nat_0 Let_def)

lemma compile_walk_steps [code]:
  "compile_walk ser t =
     push ''return v0;''
       (process_topLevel ser ''v0'' 0 (content t)
          \<lparr>elemToVarNames = [([], ''v0'')],
             lines = [''const v0 = dom.document().createDocumentFragment();'']\<rparr>)"
  by (simp add: compile_walk_def makeOrGetVarName_root push_def Let_def)

section \<open>White space\<close>

lemma white_space_not_Nil: "p \<in> set white_space \<Longrightarrow> p \<noteq> []"
  by (auto simp: white_space_def)

lemma ws_length_cases:
  "(ws_length s = 0 \<and> (\<forall>p\<in>set white_space. \<not> startsWith s p))
   \<or> (\<exists>p\<in>set white_space. startsWith s p \<and> ws_length s = length p \<and> p \<noteq> [])"
proof (cases "find (startsWith s) white_space")
  case None
  then have "ws_length s = 0"
    by (simp add: ws_length_def)
  moreover from None have "\<forall>p\<in>set white_space. \<not> startsWith s p"
    by (simp add: find_None_iff)
  ultimately show ?thesis
    by simp
next
  case (Some p)
  then have "p \<in> set white_space" "startsWith s p"
    by (auto simp: find_Some_iff)
  with Some white_space_not_Nil show ?thesis
    by (auto simp: ws_length_def)
qed

lemma ws_length_end_cases:
  "(ws_length_end s = 0 \<and> (\<forall>p\<in>set white_space. \<not> endsWith s p))
   \<or> (\<exists>p\<in>set white_space. endsWith s p \<and> ws_length_end s = length p \<and> p \<noteq> [])"
proof (cases "find (endsWith s) white_space")
  case None
  then have "ws_length_end s = 0"
    by (simp add: ws_length_end_def)
  moreover from None have "\<forall>p\<in>set white_space. \<not> endsWith s p"
    by (simp add: find_None_iff)
  ultimately show ?thesis
    by simp
next
  case (Some p)
  then have "p \<in> set white_space" "endsWith s p"
    by (auto simp: find_Some_iff)
  with Some white_space_not_Nil show ?thesis
    by (auto simp: ws_length_end_def)
qed

lemma ws_length_shorter: "ws_length s \<noteq> 0 \<Longrightarrow> length (drop (ws_length s) s) < length s"
  using ws_length_cases [of s] by (cases s) (auto simp: startsWith_def)

lemma ws_length_end_shorter:
  "ws_length_end s \<noteq> 0 \<Longrightarrow> length (take (length s - ws_length_end s) s) < length s"
  using ws_length_end_cases [of s] by (cases s) (auto simp: endsWith_def)

lemma length_trimStart_le: "length (trimStart s) \<le> length s"
proof (induction s rule: trimStart.induct)
  case (1 s)
  show ?case
  proof (cases "ws_length s = 0")
    case True
    then show ?thesis
      by (subst trimStart.simps) simp
  next
    case False
    with "1.IH" have "length (trimStart (drop (ws_length s) s)) \<le> length (drop (ws_length s) s)"
      by simp
    with False show ?thesis
      by (subst trimStart.simps) simp
  qed
qed

lemma length_trimStart_less: "ws_length s \<noteq> 0 \<Longrightarrow> length (trimStart s) < length s"
  using length_trimStart_le [of "drop (ws_length s) s"] ws_length_shorter [of s]
  by (subst trimStart.simps) simp

lemma length_skip_non_ws_le: "length (skip_non_ws s) \<le> length s"
  by (induction s) auto

lemma prefix_free:
  "list_all (\<lambda>p. list_all (\<lambda>q. startsWith p q \<longrightarrow> length q = length p) white_space) white_space"
  by code_simp

lemma suffix_free:
  "list_all (\<lambda>p. list_all (\<lambda>q. endsWith p q \<longrightarrow> length q = length p) white_space) white_space"
  by code_simp

lemma white_space_prefix_free:
  assumes "p \<in> set white_space" "q \<in> set white_space" "startsWith p q"
  shows "length q = length p"
  using prefix_free assms by (auto simp: list_all_iff)

lemma white_space_suffix_free:
  assumes "p \<in> set white_space" "q \<in> set white_space" "endsWith p q"
  shows "length q = length p"
  using suffix_free assms by (auto simp: list_all_iff)

lemma ws_length_pattern:
  assumes p: "p \<in> set white_space"
  shows "ws_length (p @ r) = length p"
proof -
  have "startsWith (p @ r) p"
    by (simp add: startsWith_def)
  with p ws_length_cases [of "p @ r"] obtain q
    where q: "q \<in> set white_space" "startsWith (p @ r) q" "ws_length (p @ r) = length q"
    by auto
  have "length q = length p"
  proof (cases "length q \<le> length p")
    case True
    with q(2) have "startsWith p q"
      by (simp add: startsWith_def)
    with p q(1) show ?thesis
      by (rule white_space_prefix_free)
  next
    case False
    with q(2) have "startsWith q p"
      by (auto simp: startsWith_def dest: arg_cong [where f = "take (length p)"])
    with q(1) p have "length p = length q"
      by (rule white_space_prefix_free)
    then show ?thesis
      by simp
  qed
  with q(3) show ?thesis
    by simp
qed

lemma ws_length_end_pattern:
  assumes p: "p \<in> set white_space"
  shows "ws_length_end (r @ p) = length p"
proof -
  have "endsWith (r @ p) p"
    by (simp add: endsWith_def)
  with p ws_length_end_cases [of "r @ p"] obtain q
    where q: "q \<in> set white_space" "endsWith (r @ p) q" "ws_length_end (r @ p) = length q"
    by auto
  have "length q = length p"
  proof (cases "length q \<le> length p")
    case True
    with q(2) have "endsWith p q"
      by (simp add: endsWith_def)
    with p q(1) show ?thesis
      by (rule white_space_suffix_free)
  next
    case False
    with q(2) have "endsWith q p"
      by (auto simp: endsWith_def dest: arg_cong [where f = "drop (length q - length p)"])
    with q(1) p have "length p = length q"
      by (rule white_space_suffix_free)
    then show ?thesis
      by simp
  qed
  with q(3) show ?thesis
    by simp
qed


lemma trimStart_Nil [simp]: "trimStart [] = []"
  using length_trimStart_le [of "[]"] by simp

lemma trimStart_pattern: "p \<in> set white_space \<Longrightarrow> trimStart (p @ r) = trimStart r"
  using white_space_not_Nil [of p] by (subst trimStart.simps) (simp add: ws_length_pattern)

lemma trimStart_concat: "set ws \<subseteq> set white_space \<Longrightarrow> trimStart (concat ws @ r) = trimStart r"
  by (induction ws) (simp_all add: trimStart_pattern)

lemma trimStart_decomp: "\<exists>ws. set ws \<subseteq> set white_space \<and> s = concat ws @ trimStart s"
proof (induction s rule: trimStart.induct)
  case (1 s)
  show ?case
  proof (cases "ws_length s = 0")
    case True
    then have "trimStart s = s"
      by (subst trimStart.simps) simp
    then have "set [] \<subseteq> set white_space \<and> s = concat [] @ trimStart s"
      by simp
    then show ?thesis
      by blast
  next
    case False
    with ws_length_cases [of s] obtain p
      where p: "p \<in> set white_space" "startsWith s p" "ws_length s = length p"
      by auto
    from "1.IH" [OF False] obtain ws
      where ws: "set ws \<subseteq> set white_space"
        "drop (ws_length s) s = concat ws @ trimStart (drop (ws_length s) s)"
      by blast
    from False have eq: "trimStart s = trimStart (drop (ws_length s) s)"
      by (subst trimStart.simps) simp
    from p have "s = p @ drop (ws_length s) s"
      by (metis append_take_drop_id startsWith_def)
    with ws(2) eq have "s = concat (p # ws) @ trimStart s"
      by simp
    moreover from p(1) ws(1) have "set (p # ws) \<subseteq> set white_space"
      by simp
    ultimately show ?thesis
      by blast
  qed
qed

lemma trimEnd_decomp: "\<exists>ws. set ws \<subseteq> set white_space \<and> s = trimEnd s @ concat ws"
proof (induction s rule: trimEnd.induct)
  case (1 s)
  show ?case
  proof (cases "ws_length_end s = 0")
    case True
    then have "trimEnd s = s"
      by (subst trimEnd.simps) simp
    then have "set [] \<subseteq> set white_space \<and> s = trimEnd s @ concat []"
      by simp
    then show ?thesis
      by blast
  next
    case False
    with ws_length_end_cases [of s] obtain p
      where p: "p \<in> set white_space" "endsWith s p" "ws_length_end s = length p"
      by auto
    let ?t = "take (length s - ws_length_end s) s"
    from "1.IH" [OF False] obtain ws
      where ws: "set ws \<subseteq> set white_space" "?t = trimEnd ?t @ concat ws"
      by blast
    from False have eq: "trimEnd s = trimEnd ?t"
      by (subst trimEnd.simps) simp
    from p have "s = ?t @ p"
      by (metis append_take_drop_id endsWith_def)
    with ws(2) eq have "s = trimEnd s @ concat (ws @ [p])"
      by (metis append.assoc append_Nil2 concat.simps concat_append)
    moreover from p(1) ws(1) have "set (ws @ [p]) \<subseteq> set white_space"
      by simp
    ultimately show ?thesis
      by blast
  qed
qed

lemma only_white_space_Nil [simp]: "only_white_space []"
  by (subst only_white_space.simps) simp

lemma only_white_space_pattern:
  "p \<in> set white_space \<Longrightarrow> only_white_space (p @ r) \<longleftrightarrow> only_white_space r"
  using white_space_not_Nil [of p]
  by (subst only_white_space.simps) (simp add: ws_length_pattern)

lemma only_white_space_concat: "set ws \<subseteq> set white_space \<Longrightarrow> only_white_space (concat ws)"
  by (induction ws) (simp_all add: only_white_space_pattern)

lemma only_white_space_iff_trimStart: "only_white_space s \<longleftrightarrow> trimStart s = []"
proof (induction s rule: trimStart.induct)
  case (1 s)
  show ?case
  proof (cases "ws_length s = 0")
    case True
    then show ?thesis
      by (subst only_white_space.simps, subst trimStart.simps) simp
  next
    case False
    then have "s \<noteq> []"
      using ws_length_shorter [of s] by auto
    with False "1.IH" show ?thesis
      by (subst only_white_space.simps, subst trimStart.simps) simp
  qed
qed

lemma trimEnd_Nil [simp]: "trimEnd [] = []"
  by (subst trimEnd.simps) (simp add: ws_length_end_def white_space_def endsWith_def)

lemma trim_eq_Nil_iff: "trim s = [] \<longleftrightarrow> only_white_space s"
proof
  assume "only_white_space s"
  then show "trim s = []"
    by (simp add: trim_def only_white_space_iff_trimStart)
next
  assume empty: "trim s = []"
  obtain ws1 where ws1: "set ws1 \<subseteq> set white_space" "s = concat ws1 @ trimStart s"
    using trimStart_decomp by blast
  obtain ws2 where ws2: "set ws2 \<subseteq> set white_space"
    "trimStart s = trimEnd (trimStart s) @ concat ws2"
    using trimEnd_decomp by blast
  from empty ws2(2) have "trimStart s = concat ws2"
    by (simp add: trim_def)
  with ws1(2) have "s = concat (ws1 @ ws2)"
    by simp
  moreover from ws1(1) ws2(1) have "only_white_space (concat (ws1 @ ws2))"
    by (intro only_white_space_concat) simp
  ultimately show "only_white_space s"
    by simp
qed

lemma only_white_space_iff_concat:
  "only_white_space s \<longleftrightarrow> (\<exists>ws. set ws \<subseteq> set white_space \<and> s = concat ws)"
proof
  assume "only_white_space s"
  then have "trimStart s = []"
    by (simp add: only_white_space_iff_trimStart)
  with trimStart_decomp [of s] show "\<exists>ws. set ws \<subseteq> set white_space \<and> s = concat ws"
    by auto
next
  assume "\<exists>ws. set ws \<subseteq> set white_space \<and> s = concat ws"
  then show "only_white_space s"
    using only_white_space_concat by blast
qed

lemma ws_length_eq_0_iff: "ws_length s = 0 \<longleftrightarrow> (\<forall>p\<in>set white_space. \<not> startsWith s p)"
  using ws_length_cases [of s] by auto

lemma ws_length_take: "ws_length s = 0 \<Longrightarrow> ws_length (take n s) = 0"
proof -
  assume z: "ws_length s = 0"
  have "\<not> startsWith (take n s) p" if p: "p \<in> set white_space" for p
  proof
    assume st: "startsWith (take n s) p"
    then have "length p \<le> n"
      by (metis startsWith_def length_take min.cobounded2 min.absorb_iff2 length_take min.commute min.cobounded1 le_trans)
    with st have "startsWith s p"
      by (simp add: startsWith_def min_def)
    with z p show False
      by (simp add: ws_length_eq_0_iff)
  qed
  then show ?thesis
    by (simp add: ws_length_eq_0_iff)
qed

lemma take_prefix_length: "s = pre @ t \<Longrightarrow> take (length s - length t) s = pre"
  by simp

lemma skip_non_ws_suffix: "\<exists>pre. s = pre @ skip_non_ws s"
proof (induction s)
  case Nil
  show ?case by simp
next
  case (Cons c cs)
  then obtain pre where "cs = pre @ skip_non_ws cs"
    by blast
  then have "ws_length (c # cs) = 0 \<Longrightarrow> c # cs = (c # pre) @ skip_non_ws (c # cs)"
    by simp
  moreover have "ws_length (c # cs) \<noteq> 0 \<Longrightarrow> c # cs = [] @ skip_non_ws (c # cs)"
    by simp
  ultimately show ?case
    by blast
qed

lemma before_skip_non_ws: "take (length s - length (skip_non_ws s)) s @ skip_non_ws s = s"
  using skip_non_ws_suffix [of s] by (metis take_prefix_length)

lemma before_trimStart: "take (length s - length (trimStart s)) s @ trimStart s = s"
  using trimStart_decomp [of s] by (metis take_prefix_length)

lemma white_space_run:
  "only_white_space (take (length s - length (trimStart s)) s)"
proof -
  obtain ws where ws: "set ws \<subseteq> set white_space" "s = concat ws @ trimStart s"
    using trimStart_decomp by blast
  from ws(2) have "take (length s - length (trimStart s)) s = concat ws"
    by (rule take_prefix_length)
  with ws(1) show ?thesis
    by (simp add: only_white_space_concat)
qed

lemma other_run:
  assumes "ws_length s = 0" "take n s \<noteq> []"
  shows "\<not> only_white_space (take n s)"
  using assms ws_length_take [of s n] by (subst only_white_space.simps) simp

lemma concat_runs: "concat (runs s) = s"
proof (induction s rule: runs.induct)
  case 1
  show ?case by simp
next
  case (2 c cs)
  show ?case
  proof (cases "ws_length (c # cs) = 0")
    case True
    with "2.IH"(1) before_skip_non_ws [of "c # cs"] show ?thesis
      by (simp del: skip_non_ws.simps)
  next
    case False
    with "2.IH"(2) before_trimStart [of "c # cs"] show ?thesis
      by simp
  qed
qed



lemma ws_length_trimStart: "ws_length (trimStart s) = 0"
proof (induction s rule: trimStart.induct)
  case (1 s)
  then show ?case
    by (subst trimStart.simps) simp
qed

lemma ws_length_skip_non_ws: "skip_non_ws s \<noteq> [] \<Longrightarrow> ws_length (skip_non_ws s) \<noteq> 0"
  by (induction s) auto

lemma runs_not_Nil: "s \<noteq> [] \<Longrightarrow> runs s \<noteq> []"
  by (cases s) simp_all

lemma hd_runs: "s \<noteq> [] \<Longrightarrow> only_white_space (hd (runs s)) \<longleftrightarrow> ws_length s \<noteq> 0"
proof (cases s)
  case Nil
  assume "s \<noteq> []"
  with Nil show ?thesis
    by simp
next
  case (Cons c cs)
  show ?thesis
  proof (cases "ws_length (c # cs) = 0")
    case True
    let ?run = "take (length (c # cs) - length (skip_non_ws (c # cs))) (c # cs)"
    from True length_skip_non_ws_le [of cs] have "?run \<noteq> []"
      by simp
    with True have "\<not> only_white_space ?run"
      by (rule other_run)
    with True Cons show ?thesis
      by (simp del: skip_non_ws.simps)
  next
    case False
    with Cons white_space_run [of "c # cs"] show ?thesis
      by simp
  qed
qed

lemma runs_alternate:
  "successively (\<lambda>r r'. only_white_space r \<longleftrightarrow> \<not> only_white_space r') (runs s)"
proof (induction s rule: runs.induct)
  case 1
  show ?case by simp
next
  case (2 c cs)
  let ?s = "c # cs"
  show ?case
  proof (cases "ws_length ?s = 0")
    case True
    let ?rest = "skip_non_ws ?s"
    let ?run = "take (length ?s - length ?rest) ?s"
    from True have rs: "runs ?s = ?run # runs ?rest"
      by (simp del: skip_non_ws.simps)
    from True length_skip_non_ws_le [of cs] have "?run \<noteq> []"
      by simp
    with True have run: "\<not> only_white_space ?run"
      by (rule other_run)
    have "runs ?rest = [] \<or> only_white_space (hd (runs ?rest))"
    proof (cases "?rest = []")
      case True
      then show ?thesis
        by (simp del: skip_non_ws.simps)
    next
      case False
      with hd_runs [OF False] ws_length_skip_non_ws [OF False] show ?thesis
        by simp
    qed
    with run "2.IH"(1) [OF True] show ?thesis
      unfolding rs successively_Cons by blast
  next
    case False
    let ?rest = "trimStart ?s"
    let ?run = "take (length ?s - length ?rest) ?s"
    from False have rs: "runs ?s = ?run # runs ?rest"
      by simp
    have run: "only_white_space ?run"
      by (rule white_space_run)
    have "runs ?rest = [] \<or> \<not> only_white_space (hd (runs ?rest))"
    proof (cases "?rest = []")
      case True
      then show ?thesis
        by simp
    next
      case False
      with hd_runs [OF False] ws_length_trimStart [of ?s] show ?thesis
        by simp
    qed
    with run "2.IH"(2) [OF False] show ?thesis
      unfolding rs successively_Cons by blast
  qed
qed

lemma trimEnd_pattern: "p \<in> set white_space \<Longrightarrow> trimEnd (r @ p) = trimEnd r"
  using white_space_not_Nil [of p] by (subst trimEnd.simps) (simp add: ws_length_end_pattern)

lemma space_white_space: "'' '' \<in> set white_space" "[CHR 0x0A] \<in> set white_space"
  by (simp_all add: white_space_def)

lemma trimStart_padding:
  "set a \<subseteq> {CHR '' '', CHR 0x0A} \<Longrightarrow> trimStart (a @ r) = trimStart r"
proof (induction a)
  case Nil
  show ?case by simp
next
  case (Cons c a)
  then have "[c] \<in> set white_space"
    using space_white_space by auto
  from trimStart_pattern [OF this, of "a @ r"] Cons show ?case
    by simp
qed

lemma trimEnd_padding:
  "set z \<subseteq> {CHR '' '', CHR 0x0A} \<Longrightarrow> trimEnd (r @ z) = trimEnd r"
proof (induction z rule: rev_induct)
  case Nil
  show ?case by simp
next
  case (snoc c z)
  then have "[c] \<in> set white_space"
    using space_white_space by auto
  from trimEnd_pattern [OF this, of "r @ z"] snoc show ?case
    by simp
qed

lemma trimStart_quote: "trimStart (CHR 0x27 # r) = CHR 0x27 # r"
proof -
  have "ws_length (CHR 0x27 # r) = 0"
    unfolding ws_length_eq_0_iff by (simp add: white_space_def startsWith_def)
  then show ?thesis
    by (subst trimStart.simps) simp
qed

lemma trimEnd_brace: "trimEnd (r @ ''}'') = r @ ''}''"
proof -
  have "\<forall>p\<in>set white_space. \<not> endsWith (r @ ''}'') p"
    by (simp add: white_space_def endsWith_def)
  then have "ws_length_end (r @ ''}'') = 0"
    using ws_length_end_cases [of "r @ ''}''"] by auto
  then show ?thesis
    by (subst trimEnd.simps) simp
qed

lemma trim_padded:
  assumes "set a \<subseteq> {CHR '' '', CHR 0x0A}" "set z \<subseteq> {CHR '' '', CHR 0x0A}"
    and "b \<noteq> []" "hd b = CHR 0x27" "last b = CHR ''}''"
  shows "trim (a @ b @ z) = b"
proof -
  from assms(3,4) have hd: "b = CHR 0x27 # tl b"
    by (cases b) simp_all
  from assms(3,5) have lst: "b = butlast b @ ''}''"
    by (metis append_butlast_last_id)
  from assms(1) have "trimStart (a @ b @ z) = trimStart (b @ z)"
    by (rule trimStart_padding)
  also have "\<dots> = trimStart (CHR 0x27 # (tl b @ z))"
    by (subst hd) simp
  also have "\<dots> = CHR 0x27 # (tl b @ z)"
    by (rule trimStart_quote)
  also have "\<dots> = b @ z"
    by (subst (2) hd) simp
  finally have "trim (a @ b @ z) = trimEnd (b @ z)"
    by (simp add: trim_def)
  also from assms(2) have "\<dots> = trimEnd b"
    by (rule trimEnd_padding)
  also have "\<dots> = trimEnd (butlast b @ ''}'')"
    by (subst lst) simp
  also have "\<dots> = butlast b @ ''}''"
    by (rule trimEnd_brace)
  also have "\<dots> = b"
    by (rule lst [symmetric])
  finally show ?thesis .
qed

section \<open>Text nodes\<close>

lemma allowJustWhitespace_iff:
  "allowJustWhitespace previousSibling nextSibling
     \<longleftrightarrow> flanked_by_span previousSibling nextSibling"
  by (auto simp: allowJustWhitespace_def siblingElement_def flanked_by_span_def
      split: option.splits node.splits)

lemma process_text_eq_None_iff:
  "process_text (Some parentTagName) previousSibling nextSibling str = None \<longleftrightarrow>
     str = [] \<or> (\<not> flanked_by_span previousSibling nextSibling \<and> only_white_space str)"
  by (simp add: process_text_def trim_eq_Nil_iff allowJustWhitespace_iff)


lemma tagName_html_element:
  "tagName (html_element ''span'' at kids) = ''SPAN''"
  "tagName (html_element ''div'' at kids) = ''DIV''"
  by (simp_all add: html_element_def) code_simp+

text \<open>
  C1. In the loop over the child nodes of an element, a text node that is only white space
  and is not flanked by two element siblings of which one is a span is passed over: the
  state and the append list are unchanged. A text node that is not empty and is not only
  white space, or is so flanked, adds one literal to the append list (and no statement).
  White space is what \<^verbatim>\<open>trim()\<close> strips: the white space and line terminators of
  ECMAScript, the no-break space among them. The empty text node is the subject of C9.
\<close>

theorem text_node_whitespace_rule:
  "(\<not> (\<not> only_white_space str \<or> flanked_by_span previousSibling (nextSibling_of rest)) \<longrightarrow>
       process_childNodes ser parentTagName r i previousSibling (TextNode str # rest) st acc
         = process_childNodes ser parentTagName r (Suc i) (Some (TextNode str)) rest st acc)
   \<and> (str \<noteq> [] \<and> (\<not> only_white_space str \<or> flanked_by_span previousSibling (nextSibling_of rest)) \<longrightarrow>
       (\<exists>literal.
          process_childNodes ser parentTagName r i previousSibling (TextNode str # rest) st acc
            = process_childNodes ser parentTagName r (Suc i) (Some (TextNode str)) rest st
                (acc @ [literal])))"
proof -
  let ?kept = "process_text (Some parentTagName) previousSibling (nextSibling_of rest) str"
  have none: "?kept = None \<longleftrightarrow>
      str = [] \<or> (\<not> flanked_by_span previousSibling (nextSibling_of rest) \<and> only_white_space str)"
    by (simp add: process_text_eq_None_iff)
  show ?thesis
  proof (intro conjI impI)
    assume "\<not> (\<not> only_white_space str \<or> flanked_by_span previousSibling (nextSibling_of rest))"
    then have "?kept = None" using none by blast
    then show "process_childNodes ser parentTagName r i previousSibling (TextNode str # rest) st acc
         = process_childNodes ser parentTagName r (Suc i) (Some (TextNode str)) rest st acc"
      by simp
  next
    assume "str \<noteq> [] \<and> (\<not> only_white_space str \<or> flanked_by_span previousSibling (nextSibling_of rest))"
    then have "?kept \<noteq> None" using none by blast
    then obtain literal where "?kept = Some literal" by blast
    then have "process_childNodes ser parentTagName r i previousSibling (TextNode str # rest) st acc
            = process_childNodes ser parentTagName r (Suc i) (Some (TextNode str)) rest st
                (acc @ [literal])"
      by simp
    then show "\<exists>literal.
          process_childNodes ser parentTagName r i previousSibling (TextNode str # rest) st acc
            = process_childNodes ser parentTagName r (Suc i) (Some (TextNode str)) rest st
                (acc @ [literal])" ..
  qed
qed

text \<open>A text node of two spaces between two spans is kept, between two divs it is dropped;
  so is a text node of one no-break space between two divs, while the letter a with grave accent (U+00E0),
  whose encoding ends with the byte that ends the no-break space, is kept.\<close>

theorem text_node_whitespace_rule_witness:
  "only_white_space ''  ''
   \<and> only_white_space [CHR 0xC2, CHR 0xA0]
   \<and> \<not> only_white_space [CHR 0xC3, CHR 0xA0]
   \<and> flanked_by_span (Some (ElementNode (html_element ''span'' [] [TextNode ''A''])))
         (nextSibling_of [ElementNode (html_element ''span'' [] [TextNode ''B''])])
   \<and> \<not> flanked_by_span (Some (ElementNode (html_element ''div'' [] [TextNode ''A''])))
         (nextSibling_of [ElementNode (html_element ''div'' [] [TextNode ''B''])])
   \<and> (\<exists>literal.
         process_childNodes serializeArguments ''P'' [0] 1
             (Some (ElementNode (html_element ''span'' [] [TextNode ''A''])))
             [TextNode ''  '', ElementNode (html_element ''span'' [] [TextNode ''B''])]
             \<lparr>elemToVarNames = [], lines = []\<rparr> [''v2'']
           = process_childNodes serializeArguments ''P'' [0] (Suc 1) (Some (TextNode ''  ''))
               [ElementNode (html_element ''span'' [] [TextNode ''B''])]
               \<lparr>elemToVarNames = [], lines = []\<rparr> ([''v2''] @ [literal]))
   \<and> process_childNodes serializeArguments ''P'' [0] 1
         (Some (ElementNode (html_element ''div'' [] [TextNode ''A''])))
         [TextNode [CHR 0xC2, CHR 0xA0], ElementNode (html_element ''div'' [] [TextNode ''B''])]
         \<lparr>elemToVarNames = [], lines = []\<rparr> [''v2'']
       = process_childNodes serializeArguments ''P'' [0] (Suc 1) (Some (TextNode [CHR 0xC2, CHR 0xA0]))
           [ElementNode (html_element ''div'' [] [TextNode ''B''])]
           \<lparr>elemToVarNames = [], lines = []\<rparr> [''v2'']
   \<and> lines (process serializeArguments [0]
         (html_element ''p'' []
            [ElementNode (html_element ''span'' [] [TextNode ''A'']), TextNode ''  '',
             ElementNode (html_element ''span'' [] [TextNode ''B''])])
         \<lparr>elemToVarNames = [([], ''v0'')], lines = []\<rparr>)
       = [''const v1 = dom.createElement(\"p\");'',
          ''const v2 = dom.createElement(\"span\");'', ''v2.append(\"A\");'',
          ''const v3 = dom.createElement(\"span\");'', ''v3.append(\"B\");'',
          ''v1.append(v2,\" \",v3);'']
   \<and> lines (process serializeArguments [0]
         (html_element ''p'' []
            [ElementNode (html_element ''div'' [] [TextNode ''A'']), TextNode ''  '',
             ElementNode (html_element ''div'' [] [TextNode ''B''])])
         \<lparr>elemToVarNames = [([], ''v0'')], lines = []\<rparr>)
       = [''const v1 = dom.createElement(\"p\");'',
          ''const v2 = dom.createElement(\"div\");'', ''v2.append(\"A\");'',
          ''const v3 = dom.createElement(\"div\");'', ''v3.append(\"B\");'',
          ''v1.append(v2,v3);'']
   \<and> lines (process serializeArguments [0]
         (html_element ''p'' []
            [ElementNode (html_element ''div'' [] [TextNode ''A'']), TextNode [CHR 0xC2, CHR 0xA0],
             ElementNode (html_element ''div'' [] [TextNode [CHR 0xC3, CHR 0xA0]])])
         \<lparr>elemToVarNames = [([], ''v0'')], lines = []\<rparr>)
       = [''const v1 = dom.createElement(\"p\");'',
          ''const v2 = dom.createElement(\"div\");'', ''v2.append(\"A\");'',
          ''const v3 = dom.createElement(\"div\");'',
          ''v3.append(\"'' @ [CHR 0xC3, CHR 0xA0] @ ''\");'',
          ''v1.append(v2,v3);'']"
proof -
  let ?spanA = "ElementNode (html_element ''span'' [] [TextNode ''A''])"
  let ?spanB = "ElementNode (html_element ''span'' [] [TextNode ''B''])"
  let ?divA = "ElementNode (html_element ''div'' [] [TextNode ''A''])"
  let ?divB = "ElementNode (html_element ''div'' [] [TextNode ''B''])"
  let ?st = "\<lparr>elemToVarNames = [], lines = []\<rparr>"
  have ws: "only_white_space ''  ''"
    by code_simp
  have nbsp: "only_white_space [CHR 0xC2, CHR 0xA0]"
    by code_simp
  have agrave: "\<not> only_white_space [CHR 0xC3, CHR 0xA0]"
    by code_simp
  have fl: "flanked_by_span (Some ?spanA) (nextSibling_of [?spanB])"
    by (simp add: flanked_by_span_def nextSibling_of_def tagName_html_element)
  have nfl: "\<not> flanked_by_span (Some ?divA) (nextSibling_of [?divB])"
    by (simp add: flanked_by_span_def nextSibling_of_def tagName_html_element)
  have ne: "''  '' \<noteq> []"
    by simp
  have kept: "\<exists>literal.
         process_childNodes serializeArguments ''P'' [0] 1 (Some ?spanA)
             [TextNode ''  '', ?spanB] ?st [''v2'']
           = process_childNodes serializeArguments ''P'' [0] (Suc 1) (Some (TextNode ''  ''))
               [?spanB] ?st ([''v2''] @ [literal])"
    using text_node_whitespace_rule [where str = "''  ''" and previousSibling = "Some ?spanA"
      and rest = "[?spanB]" and ser = serializeArguments and parentTagName = "''P''"
      and r = "[0]" and i = 1 and st = ?st and acc = "[''v2'']",
      THEN conjunct2, THEN mp, OF conjI, OF ne disjI2, OF fl] .
  have nokeep: "\<not> (\<not> only_white_space [CHR 0xC2, CHR 0xA0]
      \<or> flanked_by_span (Some ?divA) (nextSibling_of [?divB]))"
    using nbsp nfl by blast
  have dropped: "process_childNodes serializeArguments ''P'' [0] 1 (Some ?divA)
         [TextNode [CHR 0xC2, CHR 0xA0], ?divB] ?st [''v2'']
       = process_childNodes serializeArguments ''P'' [0] (Suc 1) (Some (TextNode [CHR 0xC2, CHR 0xA0]))
           [?divB] ?st [''v2'']"
    using text_node_whitespace_rule [where str = "[CHR 0xC2, CHR 0xA0]"
      and previousSibling = "Some ?divA"
      and rest = "[?divB]" and ser = serializeArguments and parentTagName = "''P''"
      and r = "[0]" and i = 1 and st = ?st and acc = "[''v2'']",
      THEN conjunct1, THEN mp, OF nokeep] .
  have ev1: "lines (process serializeArguments [0]
         (html_element ''p'' [] [?spanA, TextNode ''  '', ?spanB])
         \<lparr>elemToVarNames = [([], ''v0'')], lines = []\<rparr>)
       = [''const v1 = dom.createElement(\"p\");'',
          ''const v2 = dom.createElement(\"span\");'', ''v2.append(\"A\");'',
          ''const v3 = dom.createElement(\"span\");'', ''v3.append(\"B\");'',
          ''v1.append(v2,\" \",v3);'']"
    by code_simp
  have ev2: "lines (process serializeArguments [0]
         (html_element ''p'' [] [?divA, TextNode ''  '', ?divB])
         \<lparr>elemToVarNames = [([], ''v0'')], lines = []\<rparr>)
       = [''const v1 = dom.createElement(\"p\");'',
          ''const v2 = dom.createElement(\"div\");'', ''v2.append(\"A\");'',
          ''const v3 = dom.createElement(\"div\");'', ''v3.append(\"B\");'',
          ''v1.append(v2,v3);'']"
    by code_simp
  have ev3: "lines (process serializeArguments [0]
         (html_element ''p'' []
            [?divA, TextNode [CHR 0xC2, CHR 0xA0],
             ElementNode (html_element ''div'' [] [TextNode [CHR 0xC3, CHR 0xA0]])])
         \<lparr>elemToVarNames = [([], ''v0'')], lines = []\<rparr>)
       = [''const v1 = dom.createElement(\"p\");'',
          ''const v2 = dom.createElement(\"div\");'', ''v2.append(\"A\");'',
          ''const v3 = dom.createElement(\"div\");'',
          ''v3.append(\"'' @ [CHR 0xC3, CHR 0xA0] @ ''\");'',
          ''v1.append(v2,v3);'']"
    by code_simp
  show ?thesis
    by (intro conjI; (rule ws nbsp agrave fl nfl kept dropped ev1 ev2 ev3))
qed

text \<open>
  C9. A text node whose text is empty, or whose parent element is null, is passed over
  whatever its siblings are: the guard comes before the white-space rule. In the loop over
  the child nodes, an empty text node leaves the state and the append list unchanged.
\<close>

theorem skipped_text_node:
  assumes "str = [] \<or> parentElement = None"
  shows "process_text parentElement previousSibling nextSibling str = None
    \<and> process_childNodes ser parentTagName r i previousSibling (TextNode [] # rest) st acc
        = process_childNodes ser parentTagName r (Suc i) (Some (TextNode [])) rest st acc"
  using assms by (auto simp: process_text_def split: option.splits)

theorem skipped_text_node_witness:
  "process_text (Some ''P'') (Some (ElementNode (html_element ''span'' [] [])))
      (Some (ElementNode (html_element ''span'' [] []))) [] = None
   \<and> process_text None (Some (ElementNode (html_element ''span'' [] [])))
      (Some (ElementNode (html_element ''span'' [] []))) ''x'' = None
   \<and> flanked_by_span (Some (ElementNode (html_element ''span'' [] [])))
      (Some (ElementNode (html_element ''span'' [] [])))
   \<and> lines (process serializeArguments [0]
         (html_element ''p'' []
            [ElementNode (html_element ''span'' [] []), TextNode [],
             ElementNode (html_element ''span'' [] [])])
         \<lparr>elemToVarNames = [([], ''v0'')], lines = []\<rparr>)
       = [''const v1 = dom.createElement(\"p\");'',
          ''const v2 = dom.createElement(\"span\");'',
          ''const v3 = dom.createElement(\"span\");'',
          ''v1.append(v2,v3);'']"
proof -
  let ?span = "Some (ElementNode (html_element ''span'' [] []))"
  have a: "process_text (Some ''P'') ?span ?span [] = None"
    using skipped_text_node [where str = "[]" and parentElement = "Some ''P''"] by blast
  have b: "process_text None ?span ?span ''x'' = None"
    using skipped_text_node [where str = "''x''" and parentElement = None] by blast
  have fl: "flanked_by_span ?span ?span"
    by (simp add: flanked_by_span_def tagName_html_element)
  have ev: "lines (process serializeArguments [0]
         (html_element ''p'' []
            [ElementNode (html_element ''span'' [] []), TextNode [],
             ElementNode (html_element ''span'' [] [])])
         \<lparr>elemToVarNames = [([], ''v0'')], lines = []\<rparr>)
       = [''const v1 = dom.createElement(\"p\");'',
          ''const v2 = dom.createElement(\"span\");'',
          ''const v3 = dom.createElement(\"span\");'',
          ''v1.append(v2,v3);'']"
    by code_simp
  show ?thesis
    by (intro conjI; (rule a b fl ev))
qed

section \<open>Reading the dispatcher back\<close>

lemma strip_prefix_append [simp]: "strip_prefix p (p @ s) = Some s"
  by (simp add: strip_prefix_def)

lemma is_ident_char_plain:
  "is_ident_char c \<Longrightarrow> c \<noteq> CHR 0x27 \<and> c \<noteq> backslash \<and> c \<noteq> CHR 0x0A \<and> c \<noteq> CHR 0x0D \<and> c \<noteq> CHR ''(''"
  by (auto simp: is_ident_char_def)

lemma read_sq_literal_plain:
  "\<forall>c\<in>set v. c \<noteq> CHR 0x27 \<and> c \<noteq> backslash \<and> c \<noteq> CHR 0x0A \<and> c \<noteq> CHR 0x0D
     \<Longrightarrow> read_sq_literal (v @ CHR 0x27 # rest) = Some (v, rest)"
  by (induction v) auto

lemma takeWhile_ident_paren:
  "\<forall>c\<in>set f. is_ident_char c \<Longrightarrow> takeWhile is_ident_char (f @ CHR ''('' # x) = f"
  by (induction f) (auto simp: is_ident_char_def)

lemma dropWhile_ident_paren:
  "\<forall>c\<in>set f. is_ident_char c \<Longrightarrow> dropWhile is_ident_char (f @ CHR ''('' # x) = CHR ''('' # x"
  by (induction f) (auto simp: is_ident_char_def)

lemma read_case_line_case_line:
  assumes "\<forall>c\<in>set (componentName t). is_ident_char c"
    and "\<forall>c\<in>set (functionName t). is_ident_char c" and "functionName t \<noteq> []"
  shows "read_case_line (case_line t) = Some (componentName t, functionName t)"
proof -
  have plain: "\<forall>c\<in>set (componentName t).
      c \<noteq> CHR 0x27 \<and> c \<noteq> backslash \<and> c \<noteq> CHR 0x0A \<and> c \<noteq> CHR 0x0D"
    using assms(1) is_ident_char_plain by blast
  have "case_line t = (''  case '' @ sq) @ (componentName t @ CHR 0x27 # ('': return '' @ (functionName t @ CHR ''('' # ''dom);'')))"
    by (simp add: case_line_def)
  then show ?thesis
    unfolding read_case_line_def
    by (simp only: strip_prefix_append read_sq_literal_plain [OF plain] option.case prod.case
          takeWhile_ident_paren [OF assms(2)] dropWhile_ident_paren [OF assms(2)] assms(3))
       simp
qed

lemma case_line_not_brace: "case_line t \<noteq> ''}''"
  by (simp add: case_line_def)

lemma read_cases_case_lines:
  assumes "\<forall>t\<in>set pts. (\<forall>c\<in>set (componentName t). is_ident_char c)
      \<and> (\<forall>c\<in>set (functionName t). is_ident_char c) \<and> functionName t \<noteq> []"
  shows "read_cases (map case_line pts @ ''}'' # rest)
     = Some (map (\<lambda>t. (componentName t, functionName t)) pts, rest)"
  using assms by (induction pts) (simp_all add: case_line_not_brace read_case_line_case_line)

lemma read_throw_line_throw_line: "read_throw_line throw_line = Some ''unexpected component: ''"
  by code_simp

lemma read_dispatcher_lines:
  assumes "\<forall>t\<in>set pts. (\<forall>c\<in>set (componentName t). is_ident_char c)
      \<and> (\<forall>c\<in>set (functionName t). is_ident_char c) \<and> functionName t \<noteq> []"
  shows "read_dispatcher (dispatcher_lines pts)
     = Some (map (\<lambda>t. (componentName t, functionName t)) pts)"
  by (simp add: read_dispatcher_def dispatcher_lines_def read_cases_case_lines [OF assms]
      read_throw_line_throw_line)


lemma is_ident_char_toUpperCase_char:
  "is_ident_char c \<Longrightarrow> is_ident_char (toUpperCase_char c)"
  by (auto simp: is_ident_char_def toUpperCase_char_def Let_def)

lemma is_ident_upperFirst:
  "\<forall>c\<in>set s. is_ident_char c \<Longrightarrow> \<forall>c\<in>set (upperFirst s). is_ident_char c"
  by (cases s) (auto simp: upperFirst_def charAt_def substr_def toUpperCase_def
      is_ident_char_toUpperCase_char)

lemma componentName_compileTemplate [simp]:
  "componentName (compileTemplate ser t) = template_id t"
  by (simp add: compileTemplate_def Let_def)

lemma functionName_compileTemplate:
  "functionName (compileTemplate ser t) = ''create'' @ upperFirst (template_id t) @ ''Component''"
  by (simp add: compileTemplate_def Let_def)

lemma is_ident_functionName:
  assumes "\<forall>c\<in>set (template_id t). is_ident_char c"
  shows "\<forall>c\<in>set (functionName (compileTemplate ser t)). is_ident_char c"
proof -
  have "\<forall>c\<in>set ''create''. is_ident_char c" "\<forall>c\<in>set ''Component''. is_ident_char c"
    by (simp_all add: is_ident_char_def)
  with is_ident_upperFirst [OF assms] show ?thesis
    by (auto simp: functionName_compileTemplate)
qed

lemma set_processedTemplates [simp]:
  "set (processedTemplates ser localeCompare ts) = compileTemplate ser ` set ts"
  by (simp add: processedTemplates_def)














section \<open>The dispatcher\<close>




text \<open>
  C6. As stated the claim fails: nothing in the script checks the identifiers. With two
  templates that share the identifier \<^verbatim>\<open>a\<close> and one that has none, all three are compiled
  and the dispatcher has the keys \<^verbatim>\<open>''\<close>, \<^verbatim>\<open>'a'\<close>, \<^verbatim>\<open>'a'\<close>.
\<close>

theorem duplicate_identifier_counterexample:
  "read_dispatcher (dispatcher_lines (processedTemplates serializeArguments default
      [\<lparr>id_attribute = Some ''a'', content = []\<rparr>,
       \<lparr>id_attribute = None, content = []\<rparr>,
       \<lparr>id_attribute = Some ''a'', content = [TextNode ''x'']\<rparr>]))
   = Some [([], ''createComponent''), (''a'', ''createAComponent''), (''a'', ''createAComponent'')]"
proof -
  let ?a1 = "\<lparr>id_attribute = Some ''a'', content = []\<rparr>"
  let ?n = "\<lparr>id_attribute = None, content = []\<rparr>"
  let ?a2 = "\<lparr>id_attribute = Some ''a'', content = [TextNode ''x'']\<rparr>"
  have ids: "template_id ?a1 = ''a''" "template_id ?n = []" "template_id ?a2 = ''a''"
    by (simp_all add: template_id_def)
  have pts: "processedTemplates serializeArguments default [?a1, ?n, ?a2]
      = [compileTemplate serializeArguments ?n, compileTemplate serializeArguments ?a1,
         compileTemplate serializeArguments ?a2]"
    by (simp add: processedTemplates_def ids)
  have fns: "functionName (compileTemplate serializeArguments ?n) = ''createComponent''"
    "functionName (compileTemplate serializeArguments ?a1) = ''createAComponent''"
    "functionName (compileTemplate serializeArguments ?a2) = ''createAComponent''"
    by code_simp+
  have "\<forall>c\<in>set ''a''. is_ident_char c" "\<forall>c\<in>set ''createComponent''. is_ident_char c"
    "\<forall>c\<in>set ''createAComponent''. is_ident_char c"
    by (simp_all add: is_ident_char_def)
  then have ok: "\<forall>t\<in>set [compileTemplate serializeArguments ?n, compileTemplate serializeArguments ?a1,
         compileTemplate serializeArguments ?a2]. (\<forall>c\<in>set (componentName t). is_ident_char c)
      \<and> (\<forall>c\<in>set (functionName t). is_ident_char c) \<and> functionName t \<noteq> []"
    by (simp add: ids fns)
  show ?thesis
    unfolding pts read_dispatcher_lines [OF ok] by (simp add: ids fns)
qed

text \<open>
  C6, amended. The keys of the dispatcher are the identifiers of the templates, each as
  often as it occurs in the document and the empty one included: one case line per
  template, in the sorted order, and, when the identifiers are made of identifier
  characters, the labels read back from the generated lines are these identifiers.
\<close>

theorem dispatch_keys_are_template_ids:
  "mset (map componentName (processedTemplates ser localeCompare ts)) = mset (map template_id ts)
   \<and> dispatcher_lines (processedTemplates ser localeCompare ts)
       = ''switch (componentName) {'' # map case_line (processedTemplates ser localeCompare ts)
           @ [''}'', throw_line]
   \<and> ((\<forall>t\<in>set ts. \<forall>c\<in>set (template_id t). is_ident_char c) \<longrightarrow>
        map_option (map fst)
          (read_dispatcher (dispatcher_lines (processedTemplates ser localeCompare ts)))
        = Some (map componentName (processedTemplates ser localeCompare ts)))"
proof (intro conjI impI)
  have "mset (map componentName (processedTemplates ser localeCompare ts))
      = image_mset componentName (mset (map (compileTemplate ser) ts))"
    by (simp add: processedTemplates_def)
  also have "\<dots> = mset (map template_id ts)"
    by (simp add: image_mset.compositionality comp_def)
  finally show "mset (map componentName (processedTemplates ser localeCompare ts))
      = mset (map template_id ts)" .
next
  show "dispatcher_lines (processedTemplates ser localeCompare ts)
       = ''switch (componentName) {'' # map case_line (processedTemplates ser localeCompare ts)
           @ [''}'', throw_line]"
    by (simp add: dispatcher_lines_def)
next
  let ?pts = "processedTemplates ser localeCompare ts"
  assume ids: "\<forall>t\<in>set ts. \<forall>c\<in>set (template_id t). is_ident_char c"
  then have ok: "\<forall>t\<in>set ?pts. (\<forall>c\<in>set (componentName t). is_ident_char c)
      \<and> (\<forall>c\<in>set (functionName t). is_ident_char c) \<and> functionName t \<noteq> []"
    using is_ident_functionName by (auto simp: functionName_compileTemplate)
  show "map_option (map fst) (read_dispatcher (dispatcher_lines ?pts))
        = Some (map componentName ?pts)"
    by (simp add: read_dispatcher_lines [OF ok] comp_def)
qed

theorem dispatch_keys_are_template_ids_witness:
  "list_all (\<lambda>t. list_all is_ident_char (template_id t))
      [\<lparr>id_attribute = Some ''a'', content = []\<rparr>, \<lparr>id_attribute = None, content = []\<rparr>,
       \<lparr>id_attribute = Some ''a'', content = [TextNode ''x'']\<rparr>]
   \<and> map_option (map fst) (read_dispatcher (dispatcher_lines
        (processedTemplates serializeArguments default
          [\<lparr>id_attribute = Some ''a'', content = []\<rparr>, \<lparr>id_attribute = None, content = []\<rparr>,
           \<lparr>id_attribute = Some ''a'', content = [TextNode ''x'']\<rparr>])))
     = Some ['''', ''a'', ''a'']"
proof -
  let ?a1 = "\<lparr>id_attribute = Some ''a'', content = []\<rparr>"
  let ?n = "\<lparr>id_attribute = None, content = []\<rparr>"
  let ?a2 = "\<lparr>id_attribute = Some ''a'', content = [TextNode ''x'']\<rparr>"
  have ids: "template_id ?a1 = ''a''" "template_id ?n = []" "template_id ?a2 = ''a''"
    by (simp_all add: template_id_def)
  have "\<forall>c\<in>set ''a''. is_ident_char c"
    by (simp add: is_ident_char_def)
  then have h: "\<forall>t\<in>set [?a1, ?n, ?a2]. \<forall>c\<in>set (template_id t). is_ident_char c"
    by (simp add: ids)
  have keys: "map componentName (processedTemplates serializeArguments default [?a1, ?n, ?a2])
      = ['''', ''a'', ''a'']"
    by (simp add: processedTemplates_def ids)
  from dispatch_keys_are_template_ids [where ts = "[?a1, ?n, ?a2]" and ser = serializeArguments
      and localeCompare = default, THEN conjunct2, THEN conjunct2, THEN mp, OF h]
  have "map_option (map fst) (read_dispatcher (dispatcher_lines
        (processedTemplates serializeArguments default [?a1, ?n, ?a2]))) = Some ['''', ''a'', ''a'']"
    unfolding keys .
  moreover have "list_all (\<lambda>t. list_all is_ident_char (template_id t)) [?a1, ?n, ?a2]"
    using h by (simp add: list_all_iff)
  ultimately show ?thesis
    by (intro conjI)
qed

section \<open>Templates without identifier\<close>

text \<open>
  C5. As stated the claim fails: a template without \<open>id\<close> attribute is compiled like any
  other. Its component name is the empty string and its function is named
  \<^verbatim>\<open>createComponent\<close>.
\<close>

theorem missing_identifier_counterexample:
  "compileTemplate serializeArguments \<lparr>id_attribute = None, content = []\<rparr>
   = \<lparr>tmpEl = \<lparr>id_attribute = None, content = []\<rparr>,
      componentName = [],
      functionName = ''createComponent'',
      functionCode = nl @ ''/**'' @ nl @ '' * @param {DOM} dom'' @ nl @ '' */'' @ nl
        @ ''function createComponent(dom) {'' @ nl
        @ ''  const v0 = dom.document().createDocumentFragment();'' @ nl
        @ ''  return v0;'' @ nl
        @ ''}''\<rparr>"
  by code_simp

text \<open>
  C5, amended. For a template that lacks an identifier (no \<open>id\<close> attribute, or an empty one)
  no error is raised: the compiler returns a compiled template whose component name is the
  empty string and whose function name is \<^verbatim>\<open>createComponent\<close>.
\<close>

theorem missing_identifier_compiled:
  assumes "id_attribute t = None \<or> id_attribute t = Some []"
  shows "componentName (compileTemplate ser t) = []
    \<and> functionName (compileTemplate ser t) = ''createComponent''"
  using assms
  by (auto simp: compileTemplate_def Let_def template_id_def upperFirst_def charAt_def
      substr_def toUpperCase_def)

theorem missing_identifier_compiled_witness:
  "(id_attribute \<lparr>id_attribute = None, content = [CommentNode ''c'']\<rparr> = None
      \<or> id_attribute \<lparr>id_attribute = None, content = [CommentNode ''c'']\<rparr> = Some [])
   \<and> componentName (compileTemplate serializeArguments
        \<lparr>id_attribute = None, content = [CommentNode ''c'']\<rparr>) = []
   \<and> functionName (compileTemplate serializeArguments
        \<lparr>id_attribute = None, content = [CommentNode ''c'']\<rparr>) = ''createComponent''"
  using missing_identifier_compiled [where t = "\<lparr>id_attribute = None, content = [CommentNode ''c'']\<rparr>"
      and ser = serializeArguments]
  by simp


section \<open>Attribute values\<close>

lemma getAttribute_declared:
  "distinct (map fst (attributes el)) \<Longrightarrow> (name, val) \<in> set (attributes el)
     \<Longrightarrow> getAttribute el name = val"
  by (simp add: getAttribute_def)

lemma setAttribute_lines_in_order:
  assumes "distinct (map fst (attributes el))"
  shows "setAttribute_lines varName el
     = map (\<lambda>(name, val). varName @ ''.setAttribute('' @ sq @ name @ sq @ '', '' @ sq @ val @ sq @ '');'')
         (filter (\<lambda>(name, val). name \<noteq> ''class'') (attributes el))"
proof -
  have "map (setAttribute_line varName el) (filter (\<lambda>attr. attr \<noteq> ''class'') (map fst xs))
      = map (\<lambda>(name, val). varName @ ''.setAttribute('' @ sq @ name @ sq @ '', '' @ sq @ val @ sq @ '');'')
          (filter (\<lambda>(name, val). name \<noteq> ''class'') xs)"
    if "set xs \<subseteq> set (attributes el)" for xs
    using that
    by (induction xs)
      (auto simp: setAttribute_line_def getAttribute_declared [OF assms])
  then show ?thesis
    by (simp add: setAttribute_lines_def getAttributeNames_def)
qed

lemma read_setAttribute_plain:
  assumes "\<forall>c\<in>set varName. is_ident_char c" "varName \<noteq> []"
    and "\<forall>c\<in>set name. c \<noteq> CHR 0x27 \<and> c \<noteq> backslash \<and> c \<noteq> CHR 0x0A \<and> c \<noteq> CHR 0x0D"
    and "\<forall>c\<in>set val. c \<noteq> CHR 0x27 \<and> c \<noteq> backslash \<and> c \<noteq> CHR 0x0A \<and> c \<noteq> CHR 0x0D"
  shows "read_setAttribute (varName @ ''.setAttribute('' @ sq @ name @ sq @ '', '' @ sq @ val @ sq @ '');'')
     = Some (varName, name, val)"
proof -
  let ?tail = "''.setAttribute('' @ sq @ name @ sq @ '', '' @ sq @ val @ sq @ '');''"
  have tw: "takeWhile is_ident_char (varName @ ?tail) = varName"
    "dropWhile is_ident_char (varName @ ?tail) = ?tail"
    using assms(1) by (induction varName) (auto simp: is_ident_char_def)
  have t1: "?tail = (''.setAttribute('' @ sq) @ (name @ CHR 0x27 # (('', '' @ sq) @ (val @ CHR 0x27 # '');'')))"
    by simp
  show ?thesis
    unfolding read_setAttribute_def Let_def tw
    by (subst t1)
       (simp only: strip_prefix_append read_sq_literal_plain [OF assms(3)]
          read_sq_literal_plain [OF assms(4)] option.case prod.case assms(2) simp_thms if_True)
qed

text \<open>
  C4. The value of an attribute is written between single quotes as it is. For the element
  \<^verbatim>\<open><div title="it's">\<close> the statement is \<^verbatim>\<open>v1.setAttribute('title', 'it's');\<close>: the value's
  quote ends the literal, and the line does not read as a set-attribute statement.
\<close>

theorem attribute_value_quote_breaks_statement:
  "setAttribute_lines ''v1'' (html_element ''div'' [(''title'', ''it's'')] [])
     = [''v1.setAttribute('title', 'it's');'']
   \<and> read_setAttribute ''v1.setAttribute('title', 'it's');'' = None
   \<and> read_setAttribute ''v1.setAttribute('title', 'its');'' = Some (''v1'', ''title'', ''its'')"
  by code_simp


section \<open>The literal of a text node\<close>









section \<open>The variable table\<close>

lemma of_char_digit_char: "d < 10 \<Longrightarrow> (of_char (digit_char d) :: nat) = 48 + d"
  by (simp add: digit_char_def)

lemma digit_char_inj: "a < 10 \<Longrightarrow> b < 10 \<Longrightarrow> digit_char a = digit_char b \<Longrightarrow> a = b"
proof -
  assume a: "a < 10" and b: "b < 10" and e: "digit_char a = digit_char b"
  have "(of_char (digit_char a) :: nat) = of_char (digit_char b)"
    by (simp only: e)
  then have "48 + a = 48 + b"
    by (simp only: of_char_digit_char [OF a] of_char_digit_char [OF b])
  then show "a = b"
    by simp
qed

lemma string_of_nat_not_Nil: "string_of_nat n \<noteq> []"
  by (subst string_of_nat.simps) simp

lemma string_of_nat_inj: "string_of_nat n = string_of_nat m \<Longrightarrow> n = m"
proof (induction n arbitrary: m rule: string_of_nat.induct)
  case (1 n)
  note eq = "1.prems"
  show ?case
  proof (cases "n < 10")
    case n: True
    then have sn: "string_of_nat n = [digit_char n]"
      by (subst string_of_nat.simps) simp
    show ?thesis
    proof (cases "m < 10")
      case True
      then have "string_of_nat m = [digit_char m]"
        by (subst string_of_nat.simps) simp
      with eq sn have "digit_char n = digit_char m"
        by simp
      with n True show ?thesis
        by (rule digit_char_inj)
    next
      case False
      then have "string_of_nat m = string_of_nat (m div 10) @ [digit_char (m mod 10)]"
        by (subst string_of_nat.simps) simp
      with eq sn have "string_of_nat (m div 10) = []"
        by simp
      with string_of_nat_not_Nil show ?thesis
        by blast
    qed
  next
    case n: False
    then have sn: "string_of_nat n = string_of_nat (n div 10) @ [digit_char (n mod 10)]"
      by (subst string_of_nat.simps) simp
    show ?thesis
    proof (cases "m < 10")
      case True
      then have "string_of_nat m = [digit_char m]"
        by (subst string_of_nat.simps) simp
      with eq sn have "string_of_nat (n div 10) = []"
        by simp
      with string_of_nat_not_Nil show ?thesis
        by blast
    next
      case False
      then have "string_of_nat m = string_of_nat (m div 10) @ [digit_char (m mod 10)]"
        by (subst string_of_nat.simps) simp
      with eq sn have e: "string_of_nat (n div 10) = string_of_nat (m div 10)"
        "digit_char (n mod 10) = digit_char (m mod 10)"
        by simp_all
      from "1.IH" [OF n e(1)] have d: "n div 10 = m div 10" .
      have "n mod 10 < 10" "m mod 10 < 10"
        by simp_all
      then have "n mod 10 = m mod 10"
        using e(2) by (rule digit_char_inj)
      with d have "10 * (n div 10) + n mod 10 = 10 * (m div 10) + m mod 10"
        by simp
      then show ?thesis
        by simp
    qed
  qed
qed

lemma string_of_nat_eq_iff: "string_of_nat n = string_of_nat m \<longleftrightarrow> n = m"
  using string_of_nat_inj by blast

lemma var_table_ok_Nil [simp]: "var_table_ok []"
  by (simp add: var_table_ok_def)

lemma var_table_ok_names_distinct: "var_table_ok tbl \<Longrightarrow> distinct (map snd tbl)"
  by (simp add: var_table_ok_def distinct_map inj_on_def string_of_nat_eq_iff)

lemma var_table_ok_injective:
  assumes "var_table_ok tbl" "map_of tbl k1 = Some v" "map_of tbl k2 = Some v"
  shows "k1 = k2"
proof -
  from assms(2,3) have "(k1, v) \<in> set tbl" "(k2, v) \<in> set tbl"
    by (auto dest: map_of_SomeD)
  moreover have "distinct (map snd tbl)"
    using assms(1) by (rule var_table_ok_names_distinct)
  ultimately have "inj_on snd (set tbl)" "snd (k1, v) = snd (k2, v)"
    by (simp_all add: distinct_map)
  with \<open>(k1, v) \<in> set tbl\<close> \<open>(k2, v) \<in> set tbl\<close> have "(k1, v) = (k2, v)"
    by (rule_tac inj_onD)
  then show ?thesis
    by simp
qed

lemma var_table_ok_lookup_not_Nil:
  "var_table_ok tbl \<Longrightarrow> map_of tbl k = Some v \<Longrightarrow> v \<noteq> []"
proof -
  assume ok: "var_table_ok tbl" and "map_of tbl k = Some v"
  then have "v \<in> set (map snd tbl)"
    by (force dest: map_of_SomeD)
  with ok show "v \<noteq> []"
    by (auto simp: var_table_ok_def)
qed

lemma update_fresh: "k \<notin> fst ` set al \<Longrightarrow> AList.update k v al = al @ [(k, v)]"
  by (induction al) auto

lemma update_same: "map_of al k = Some v \<Longrightarrow> AList.update k v al = al"
  by (induction al) (auto split: if_splits)

lemma makeOrGetVarName_fresh:
  assumes "map_of (elemToVarNames st) el = None"
  shows "makeOrGetVarName el st
     = (''v'' @ string_of_nat (length (elemToVarNames st)),
        st\<lparr>elemToVarNames := elemToVarNames st
              @ [(el, ''v'' @ string_of_nat (length (elemToVarNames st)))]\<rparr>)"
proof -
  from assms have "el \<notin> fst ` set (elemToVarNames st)"
    by (simp add: map_of_eq_None_iff)
  then show ?thesis
    using assms by (simp add: makeOrGetVarName_def Let_def update_fresh)
qed

lemma makeOrGetVarName_known:
  assumes "var_table_ok (elemToVarNames st)" "map_of (elemToVarNames st) el = Some w"
  shows "makeOrGetVarName el st = (w, st)"
  using assms var_table_ok_lookup_not_Nil [OF assms]
  by (simp add: makeOrGetVarName_def Let_def update_same)

lemma var_table_ok_snoc:
  assumes "var_table_ok tbl" "map_of tbl k = None"
  shows "var_table_ok (tbl @ [(k, ''v'' @ string_of_nat (length tbl))])"
proof -
  from assms(2) have "k \<notin> fst ` set tbl"
    by (simp add: map_of_eq_None_iff)
  with assms(1) show ?thesis
    by (simp add: var_table_ok_def)
qed

lemma makeOrGetVarName_table:
  assumes "var_table_ok (elemToVarNames st)"
  shows "var_table_ok (elemToVarNames (snd (makeOrGetVarName el st)))
    \<and> (\<exists>ext. elemToVarNames (snd (makeOrGetVarName el st)) = elemToVarNames st @ ext)"
proof (cases "map_of (elemToVarNames st) el")
  case None
  with var_table_ok_snoc [OF assms None] show ?thesis
    by (simp add: makeOrGetVarName_fresh)
next
  case (Some w)
  with assms show ?thesis
    by (simp add: makeOrGetVarName_known)
qed

lemma elemToVarNames_push [simp]: "elemToVarNames (push l st) = elemToVarNames st"
  by (simp add: push_def)

lemma elemToVarNames_open_element [simp]:
  "elemToVarNames (open_element ser el p) = elemToVarNames (snd p)"
  by (simp add: open_element_def)

lemma elemToVarNames_close_element [simp]:
  "elemToVarNames (close_element v p) = elemToVarNames (fst p)"
  by (simp add: close_element_def)

lemma table_grow:
  "var_table_ok (elemToVarNames st) \<Longrightarrow>
     var_table_ok (elemToVarNames (process ser r el st))
     \<and> (\<exists>ext. elemToVarNames (process ser r el st) = elemToVarNames st @ ext)"
  "var_table_ok (elemToVarNames st) \<Longrightarrow>
     var_table_ok (elemToVarNames (fst (process_childNodes ser ptag r i prev kids st acc)))
     \<and> (\<exists>ext. elemToVarNames (fst (process_childNodes ser ptag r i prev kids st acc))
           = elemToVarNames st @ ext)"
proof (induction ser r el st and ser ptag r i prev kids st acc
    rule: process_process_childNodes.induct)
  case (1 ser r ns ln tn attrs kids st)
  let ?el = "Element ns ln tn attrs kids"
  obtain fn args where ca: "creation_call ?el = (fn, args)"
    by (cases "creation_call ?el")
  obtain v st1 where mk: "makeOrGetVarName r st = (v, st1)"
    by (cases "makeOrGetVarName r st")
  let ?st3 = "open_element ser ?el (v, st1)"
  have st3: "?st3 = (push (''const '' @ v @ '' = dom.'' @ fn @ ''('' @ ser args @ '');'') st1)
      \<lparr>lines := lines (push (''const '' @ v @ '' = dom.'' @ fn @ ''('' @ ser args @ '');'') st1)
         @ setAttribute_lines v ?el\<rparr>"
    by (simp add: open_element_def ca push_def)
  from makeOrGetVarName_table [OF "1.prems", of r] obtain e1 where
    t1: "var_table_ok (elemToVarNames st1)" "elemToVarNames st1 = elemToVarNames st @ e1"
    by (auto simp: mk)
  have ok3: "var_table_ok (elemToVarNames ?st3)"
    using t1(1) by simp
  from "1.IH" [OF refl ca [symmetric] refl mk [symmetric] refl refl] ok3
  obtain e2 where
    t2: "var_table_ok (elemToVarNames (fst (process_childNodes ser tn r 0 None kids ?st3 [])))"
      "elemToVarNames (fst (process_childNodes ser tn r 0 None kids ?st3 []))
         = elemToVarNames ?st3 @ e2"
    unfolding st3 by blast
  show ?case
    using t1 t2
    by (simp add: process_steps mk childNodes_loop_def)
next
  case (2 ser parentTagName r i previousSibling st acc)
  then show ?case by simp
next
  case (3 ser parentTagName r i previousSibling c rest st acc)
  then show ?case by simp
next
  case (4 ser parentTagName r i previousSibling str rest st acc)
  then show ?case by simp
next
  case (5 ser parentTagName r i previousSibling e rest st acc)
  let ?st1 = "process ser (r @ [i]) e st"
  from "5.IH"(1) [OF "5.prems"] obtain e1 where
    t1: "var_table_ok (elemToVarNames ?st1)" "elemToVarNames ?st1 = elemToVarNames st @ e1"
    by blast
  from "5.IH"(2) [OF refl refl t1(1)] obtain e2 where
    t2: "var_table_ok (elemToVarNames (fst (process_childNodes ser parentTagName r (Suc i)
          (Some (ElementNode e)) rest ?st1
          (case map_of (elemToVarNames ?st1) (r @ [i]) of
             None \<Rightarrow> acc
           | Some childVarName \<Rightarrow> if childVarName \<noteq> [] then acc @ [childVarName] else acc))))"
      "elemToVarNames (fst (process_childNodes ser parentTagName r (Suc i)
          (Some (ElementNode e)) rest ?st1
          (case map_of (elemToVarNames ?st1) (r @ [i]) of
             None \<Rightarrow> acc
           | Some childVarName \<Rightarrow> if childVarName \<noteq> [] then acc @ [childVarName] else acc)))
       = elemToVarNames ?st1 @ e2"
    by blast
  show ?case
    using t1 t2 by (simp add: Let_def)
qed

lemma process_topLevel_table:
  "var_table_ok (elemToVarNames st) \<Longrightarrow>
     var_table_ok (elemToVarNames (process_topLevel ser fv i kids st))
     \<and> (\<exists>ext. elemToVarNames (process_topLevel ser fv i kids st) = elemToVarNames st @ ext)"
proof (induction kids arbitrary: i st)
  case Nil
  then show ?case by simp
next
  case (Cons k kids)
  show ?case
  proof (cases k)
    case (ElementNode e)
    let ?st1 = "process ser [i] e st"
    let ?st2 = "snd (makeOrGetVarName [i] ?st1)"
    from table_grow(1) [OF Cons.prems, of ser "[i]" e] obtain e1 where
      t1: "var_table_ok (elemToVarNames ?st1)" "elemToVarNames ?st1 = elemToVarNames st @ e1"
      by blast
    from makeOrGetVarName_table [OF t1(1), of "[i]"] obtain e2 where
      t2: "var_table_ok (elemToVarNames ?st2)" "elemToVarNames ?st2 = elemToVarNames ?st1 @ e2"
      by blast
    have t3: "var_table_ok (elemToVarNames (topLevel_done fv (makeOrGetVarName [i] ?st1)))"
      "elemToVarNames (topLevel_done fv (makeOrGetVarName [i] ?st1)) = elemToVarNames ?st2"
      using t2(1) by (simp_all add: topLevel_done_def)
    from Cons.IH [OF t3(1), of "Suc i"] obtain e3 where
      "var_table_ok (elemToVarNames (process_topLevel ser fv (Suc i) kids
          (topLevel_done fv (makeOrGetVarName [i] ?st1))))"
      "elemToVarNames (process_topLevel ser fv (Suc i) kids
          (topLevel_done fv (makeOrGetVarName [i] ?st1)))
        = elemToVarNames (topLevel_done fv (makeOrGetVarName [i] ?st1)) @ e3"
      by blast
    then show ?thesis
      unfolding ElementNode process_topLevel_steps
      by (simp add: t3(2) t2(2) t1(2))
  next
    case (TextNode str)
    with Cons show ?thesis by simp
  next
    case (CommentNode c)
    with Cons show ?thesis by simp
  qed
qed

lemma compile_walk_table:
  "var_table_ok (elemToVarNames (compile_walk ser t))
   \<and> (\<exists>ext. elemToVarNames (compile_walk ser t) = ([], ''v0'') # ext)"
proof -
  let ?st = "\<lparr>elemToVarNames = [([], ''v0'')],
      lines = [''const v0 = dom.document().createDocumentFragment();'']\<rparr>"
  have "var_table_ok (elemToVarNames ?st)"
    by (simp add: var_table_ok_def string_of_nat_0)
  from process_topLevel_table [OF this, of ser "''v0''" 0 "content t"] show ?thesis
    by (auto simp: compile_walk_steps)
qed

text \<open>
  C10. The variable table of a template maps distinct nodes to distinct names. It starts
  empty, and every step of the compilation keeps it well formed and only adds to it:
  \<open>makeOrGetVarName\<close> binds a node that is not in the table to \<^verbatim>\<open>v\<close> followed by the size of
  the table and returns the bound name, unchanged, for a node that is; \<open>process\<close> does the
  same for the nodes it visits. At the end of the compilation the template element is bound
  to \<^verbatim>\<open>v0\<close>.
\<close>

theorem variable_table_invariant:
  "var_table_ok (elemToVarNames (compile_walk ser t))
   \<and> map_of (elemToVarNames (compile_walk ser t)) [] = Some ''v0''
   \<and> fst (makeOrGetVarName [] \<lparr>elemToVarNames = [], lines = []\<rparr>) = ''v0''
   \<and> (var_table_ok tbl \<longrightarrow>
        (\<forall>k1 k2 v. map_of tbl k1 = Some v \<and> map_of tbl k2 = Some v \<longrightarrow> k1 = k2))
   \<and> (var_table_ok (elemToVarNames st) \<longrightarrow>
        var_table_ok (elemToVarNames (snd (makeOrGetVarName el st)))
        \<and> (map_of (elemToVarNames st) el = None \<longrightarrow>
             fst (makeOrGetVarName el st) = ''v'' @ string_of_nat (length (elemToVarNames st))
             \<and> elemToVarNames (snd (makeOrGetVarName el st))
                 = elemToVarNames st @ [(el, fst (makeOrGetVarName el st))])
        \<and> (\<forall>w. map_of (elemToVarNames st) el = Some w \<longrightarrow> makeOrGetVarName el st = (w, st))
        \<and> makeOrGetVarName el (snd (makeOrGetVarName el st))
            = (fst (makeOrGetVarName el st), snd (makeOrGetVarName el st))
        \<and> var_table_ok (elemToVarNames (process ser r e st))
        \<and> (\<exists>ext. elemToVarNames (process ser r e st) = elemToVarNames st @ ext))"
proof (intro conjI impI allI)
  show "var_table_ok (elemToVarNames (compile_walk ser t))"
    using compile_walk_table by blast
  show "map_of (elemToVarNames (compile_walk ser t)) [] = Some ''v0''"
    using compile_walk_table [of ser t] by auto
  show "fst (makeOrGetVarName [] \<lparr>elemToVarNames = [], lines = []\<rparr>) = ''v0''"
    by (simp add: makeOrGetVarName_root)
next
  fix k1 k2 v
  assume "var_table_ok tbl" "map_of tbl k1 = Some v \<and> map_of tbl k2 = Some v"
  then show "k1 = k2"
    using var_table_ok_injective by blast
next
  assume ok: "var_table_ok (elemToVarNames st)"
  show "var_table_ok (elemToVarNames (snd (makeOrGetVarName el st)))"
    using makeOrGetVarName_table [OF ok] by blast
  show "var_table_ok (elemToVarNames (process ser r e st))"
    using table_grow(1) [OF ok] by blast
  show "\<exists>ext. elemToVarNames (process ser r e st) = elemToVarNames st @ ext"
    using table_grow(1) [OF ok] by blast
  show "makeOrGetVarName el (snd (makeOrGetVarName el st))
      = (fst (makeOrGetVarName el st), snd (makeOrGetVarName el st))"
  proof (cases "map_of (elemToVarNames st) el")
    case None
    let ?v = "''v'' @ string_of_nat (length (elemToVarNames st))"
    let ?st' = "st\<lparr>elemToVarNames := elemToVarNames st @ [(el, ?v)]\<rparr>"
    have mk: "makeOrGetVarName el st = (?v, ?st')"
      using None by (rule makeOrGetVarName_fresh)
    have ok': "var_table_ok (elemToVarNames ?st')"
      using var_table_ok_snoc [OF ok None] by simp
    have "map_of (elemToVarNames ?st') el = Some ?v"
      using None by (simp add: map_add_def)
    from makeOrGetVarName_known [OF ok' this] show ?thesis
      by (simp add: mk)
  next
    case (Some w)
    from makeOrGetVarName_known [OF ok Some] show ?thesis
      by simp
  qed
next
  assume ok: "var_table_ok (elemToVarNames st)" and none: "map_of (elemToVarNames st) el = None"
  show "fst (makeOrGetVarName el st) = ''v'' @ string_of_nat (length (elemToVarNames st))"
    by (simp add: makeOrGetVarName_fresh [OF none])
  show "elemToVarNames (snd (makeOrGetVarName el st))
      = elemToVarNames st @ [(el, fst (makeOrGetVarName el st))]"
    by (simp add: makeOrGetVarName_fresh [OF none])
next
  fix w
  assume "var_table_ok (elemToVarNames st)" "map_of (elemToVarNames st) el = Some w"
  then show "makeOrGetVarName el st = (w, st)"
    by (rule makeOrGetVarName_known)
qed


theorem variable_table_invariant_witness:
  "var_table_ok [([], ''v0''), ([0], ''v1'')]
   \<and> makeOrGetVarName [0] \<lparr>elemToVarNames = [([], ''v0''), ([0], ''v1'')], lines = []\<rparr>
       = (''v1'', \<lparr>elemToVarNames = [([], ''v0''), ([0], ''v1'')], lines = []\<rparr>)
   \<and> makeOrGetVarName [1] \<lparr>elemToVarNames = [([], ''v0''), ([0], ''v1'')], lines = []\<rparr>
       = (''v2'', \<lparr>elemToVarNames = [([], ''v0''), ([0], ''v1''), ([1], ''v2'')], lines = []\<rparr>)
   \<and> elemToVarNames (compile_walk serializeArguments
         \<lparr>id_attribute = Some ''x'',
            content = [ElementNode (html_element ''p'' [] [ElementNode (html_element ''span'' [] [])]),
                       ElementNode (html_element ''div'' [] [])]\<rparr>)
       = [([], ''v0''), ([0], ''v1''), ([0, 0], ''v2''), ([1], ''v3'')]"
proof -
  let ?st = "\<lparr>elemToVarNames = [([], ''v0''), ([0], ''v1'')], lines = []\<rparr>"
  have ok: "var_table_ok (elemToVarNames ?st)"
    by code_simp
  have look: "map_of (elemToVarNames ?st) [0] = Some ''v1''"
    by simp
  note inv = variable_table_invariant [where st = ?st and el = "[0]", THEN conjunct2,
      THEN conjunct2, THEN conjunct2, THEN conjunct2, THEN mp, OF ok]
  from inv [THEN conjunct2, THEN conjunct2, THEN conjunct1, THEN spec, THEN mp, OF look]
  have known: "makeOrGetVarName [0] ?st = (''v1'', ?st)" .
  have fresh: "makeOrGetVarName [1] ?st
       = (''v2'', \<lparr>elemToVarNames = [([], ''v0''), ([0], ''v1''), ([1], ''v2'')], lines = []\<rparr>)"
    by code_simp
  have walk: "elemToVarNames (compile_walk serializeArguments
         \<lparr>id_attribute = Some ''x'',
            content = [ElementNode (html_element ''p'' [] [ElementNode (html_element ''span'' [] [])]),
                       ElementNode (html_element ''div'' [] [])]\<rparr>)
       = [([], ''v0''), ([0], ''v1''), ([0, 0], ''v2''), ([1], ''v3'')]"
    by code_simp
  from ok have ok': "var_table_ok [([], ''v0''), ([0], ''v1'')]"
    by simp
  show ?thesis
    by (intro conjI; (rule ok' known fresh walk))
qed

section \<open>The statements of an element\<close>


lemma lines_push [simp]: "lines (push l st) = lines st @ [l]"
  by (simp add: push_def)


















section \<open>The order of the output\<close>

lemma sorted_key_map:
  "Sorting_Algorithms.sorted (key f cmp) xs \<longleftrightarrow> Sorting_Algorithms.sorted cmp (map f xs)"
proof (induction xs)
  case Nil
  show ?case by simp
next
  case (Cons x xs)
  then show ?case
    by (cases xs) simp_all
qed

lemma map_insort_key:
  "map f (insort (key f cmp) x xs) = insort cmp (f x) (map f xs)"
  by (induction xs) simp_all

lemma map_sort_key: "map f (sort (key f cmp) xs) = sort cmp (map f xs)"
  by (induction xs) (simp_all add: map_insort_key)

lemma sort_permutation:
  assumes "mset xs = mset ys"
    and anti: "\<forall>a\<in>set xs. \<forall>b\<in>set xs. compare cmp a b = Equiv \<longrightarrow> a = b"
  shows "sort cmp xs = sort cmp ys"
proof (rule sort_eqI)
  show "mset xs = mset (sort cmp ys)"
    using assms(1) by simp
  show "Sorting_Algorithms.sorted cmp (sort cmp ys)"
    by simp
  fix y assume y: "y \<in> set xs"
  have sets: "set ys = set xs"
    using assms(1) [symmetric] by (rule mset_eq_setD)
  have fx: "filter (\<lambda>z. compare cmp y z = Equiv) xs = filter (\<lambda>z. z = y) xs"
  proof (rule filter_cong [OF refl])
    fix z assume "z \<in> set xs"
    with anti y show "(compare cmp y z = Equiv) = (z = y)"
      by auto
  qed
  have fy: "filter (\<lambda>z. compare cmp y z = Equiv) ys = filter (\<lambda>z. z = y) ys"
  proof (rule filter_cong [OF refl])
    fix z assume "z \<in> set ys"
    with anti y sets show "(compare cmp y z = Equiv) = (z = y)"
      by auto
  qed
  have "mset (filter (\<lambda>z. z = y) xs) = mset (filter (\<lambda>z. z = y) ys)"
    by (simp add: assms(1))
  then have len: "length (filter (\<lambda>z. z = y) xs) = length (filter (\<lambda>z. z = y) ys)"
    by (rule mset_eq_length)
  have "filter (\<lambda>z. z = y) xs = replicate (length (filter (\<lambda>z. z = y) xs)) y"
    by (rule replicate_length_same [symmetric]) simp
  also have "\<dots> = replicate (length (filter (\<lambda>z. z = y) ys)) y"
    by (simp only: len)
  also have "\<dots> = filter (\<lambda>z. z = y) ys"
    by (rule replicate_length_same) simp
  finally have "filter (\<lambda>z. z = y) xs = filter (\<lambda>z. z = y) ys" .
  then show "filter (\<lambda>z. compare cmp y z = Equiv) xs
      = filter (\<lambda>z. compare cmp y z = Equiv) (sort cmp ys)"
    by (simp only: fx fy stable_sort)
qed

lemma last_createFunctionCode: "last (createFunctionCode f body ps) = CHR ''}''"
  by (simp add: createFunctionCode_def Let_def)

lemma main_text:
  "main ser localeCompare ts
     = drop 4 code_header
       @ ''    '' @ join nl (map functionCode (processedTemplates ser localeCompare ts)) @ nl @ nl
       @ ''    '' @ makeGenericCreateComponentFunctionCode (processedTemplates ser localeCompare ts)"
proof -
  let ?pts = "processedTemplates ser localeCompare ts"
  let ?b = "drop 4 code_header
       @ ''    '' @ join nl (map functionCode ?pts) @ nl @ nl
       @ ''    '' @ makeGenericCreateComponentFunctionCode ?pts"
  have hd: "code_header = ''    '' @ drop 4 code_header" "hd (drop 4 code_header) = CHR 0x27"
    "drop 4 code_header \<noteq> []"
    by (simp_all add: code_header_def)
  have e: "nl @ code_header @ rest = (nl @ ''    '') @ (drop 4 code_header @ rest)" for rest
  proof -
    have "nl @ (''    '' @ drop 4 code_header) @ rest
        = (nl @ ''    '') @ (drop 4 code_header @ rest)"
      by simp
    then show ?thesis
      by (simp only: hd(1) [symmetric])
  qed
  have "main ser localeCompare ts
      = trim (nl @ code_header @ (''    '' @ join nl (map functionCode ?pts) @ nl @ nl
          @ ''    '' @ makeGenericCreateComponentFunctionCode ?pts @ nl @ ''  ''))"
    by (simp add: main_def Let_def)
  also have "\<dots> = trim ((nl @ ''    '') @ ?b @ (nl @ ''  ''))"
    by (subst e) simp
  also have "\<dots> = ?b"
  proof (rule trim_padded)
    show "set (nl @ ''    '') \<subseteq> {CHR '' '', CHR 0x0A}" "set (nl @ ''  '') \<subseteq> {CHR '' '', CHR 0x0A}"
      by simp_all
    show "?b \<noteq> []"
      using hd(3) by simp
    show "hd ?b = CHR 0x27"
      using hd(2,3) by simp
    show "last ?b = CHR ''}''"
      by (simp add: makeGenericCreateComponentFunctionCode_def last_createFunctionCode
          createFunctionCode_def Let_def)
  qed
  finally show ?thesis .
qed

text \<open>
  C8. The text that \<open>main\<close> writes is the header, the functions of the templates and then
  the dispatcher. The functions are the compiled templates, sorted: their identifiers
  ascend in the order of \<open>localeCompare\<close>, for every order of the templates in the document.
  When identifiers that compare equal are equal, the sequence of identifiers is the same for
  every order of the templates in the document; when moreover no two templates have the
  same identifier, so is the whole text.
\<close>

theorem functions_in_identifier_order:
  "main ser localeCompare ts
     = drop 4 code_header
       @ ''    '' @ join nl (map functionCode (processedTemplates ser localeCompare ts)) @ nl @ nl
       @ ''    '' @ makeGenericCreateComponentFunctionCode (processedTemplates ser localeCompare ts)
   \<and> Sorting_Algorithms.sorted localeCompare
        (map componentName (processedTemplates ser localeCompare ts))
   \<and> mset (processedTemplates ser localeCompare ts) = mset (map (compileTemplate ser) ts)
   \<and> (mset ts' = mset ts
        \<and> (\<forall>a\<in>set ts. \<forall>b\<in>set ts.
              compare localeCompare (template_id a) (template_id b) = Equiv
                \<longrightarrow> template_id a = template_id b)
        \<longrightarrow> map componentName (processedTemplates ser localeCompare ts')
              = map componentName (processedTemplates ser localeCompare ts))
   \<and> (mset ts' = mset ts
        \<and> (\<forall>a\<in>set ts. \<forall>b\<in>set ts.
              compare localeCompare (template_id a) (template_id b) = Equiv \<longrightarrow> a = b)
        \<longrightarrow> main ser localeCompare ts' = main ser localeCompare ts)"
proof (intro conjI impI)
  show "main ser localeCompare ts
     = drop 4 code_header
       @ ''    '' @ join nl (map functionCode (processedTemplates ser localeCompare ts)) @ nl @ nl
       @ ''    '' @ makeGenericCreateComponentFunctionCode (processedTemplates ser localeCompare ts)"
    by (rule main_text)
  show "Sorting_Algorithms.sorted localeCompare
        (map componentName (processedTemplates ser localeCompare ts))"
    unfolding processedTemplates_def sorted_key_map [symmetric] by simp
  show "mset (processedTemplates ser localeCompare ts) = mset (map (compileTemplate ser) ts)"
    by (simp add: processedTemplates_def)
next
  assume h: "mset ts' = mset ts
        \<and> (\<forall>a\<in>set ts. \<forall>b\<in>set ts.
              compare localeCompare (template_id a) (template_id b) = Equiv
                \<longrightarrow> template_id a = template_id b)"
  then have sets: "set ts' = set ts"
    by (metis set_mset_mset)
  have "sort localeCompare (map template_id ts') = sort localeCompare (map template_id ts)"
  proof (rule sort_permutation)
    show "mset (map template_id ts') = mset (map template_id ts)"
      using h by (metis mset_map)
    show "\<forall>a\<in>set (map template_id ts'). \<forall>b\<in>set (map template_id ts').
        compare localeCompare a b = Equiv \<longrightarrow> a = b"
      using h sets by auto
  qed
  then show "map componentName (processedTemplates ser localeCompare ts')
      = map componentName (processedTemplates ser localeCompare ts)"
    by (simp add: processedTemplates_def map_sort_key comp_def)
next
  assume h: "mset ts' = mset ts
        \<and> (\<forall>a\<in>set ts. \<forall>b\<in>set ts.
              compare localeCompare (template_id a) (template_id b) = Equiv \<longrightarrow> a = b)"
  then have sets: "set ts' = set ts"
    by (metis set_mset_mset)
  have "sort (key componentName localeCompare) (map (compileTemplate ser) ts')
      = sort (key componentName localeCompare) (map (compileTemplate ser) ts)"
  proof (rule sort_permutation)
    show "mset (map (compileTemplate ser) ts') = mset (map (compileTemplate ser) ts)"
      using h by (metis mset_map)
    show "\<forall>a\<in>set (map (compileTemplate ser) ts'). \<forall>b\<in>set (map (compileTemplate ser) ts').
        compare (key componentName localeCompare) a b = Equiv \<longrightarrow> a = b"
      using h sets by auto
  qed
  then show "main ser localeCompare ts' = main ser localeCompare ts"
    by (simp add: main_def processedTemplates_def)
qed


theorem functions_in_identifier_order_witness:
  "mset [\<lparr>id_attribute = Some ''a'', content = []\<rparr>, \<lparr>id_attribute = Some ''b'', content = []\<rparr>]
     = mset [\<lparr>id_attribute = Some ''b'', content = []\<rparr>, \<lparr>id_attribute = Some ''a'', content = []\<rparr>]
   \<and> compare default (template_id \<lparr>id_attribute = Some ''a'', content = []\<rparr>)
         (template_id \<lparr>id_attribute = Some ''b'', content = []\<rparr>) = Less
   \<and> map componentName (processedTemplates serializeArguments default
        [\<lparr>id_attribute = Some ''b'', content = []\<rparr>, \<lparr>id_attribute = Some ''a'', content = []\<rparr>])
       = [''a'', ''b'']
   \<and> Sorting_Algorithms.sorted default [''a'', ''b'']
   \<and> main serializeArguments default
        [\<lparr>id_attribute = Some ''a'', content = []\<rparr>, \<lparr>id_attribute = Some ''b'', content = []\<rparr>]
       = main serializeArguments default
        [\<lparr>id_attribute = Some ''b'', content = []\<rparr>, \<lparr>id_attribute = Some ''a'', content = []\<rparr>]"
proof -
  let ?a = "\<lparr>id_attribute = Some ''a'', content = []\<rparr>"
  let ?b = "\<lparr>id_attribute = Some ''b'', content = []\<rparr>"
  have ids: "template_id ?a = ''a''" "template_id ?b = ''b''"
    by (simp_all add: template_id_def)
  have p: "mset [?a, ?b] = mset [?b, ?a]"
    by (simp add: add.commute)
  have h: "\<forall>a\<in>set [?b, ?a]. \<forall>b\<in>set [?b, ?a].
      compare default (template_id a) (template_id b) = Equiv \<longrightarrow> a = b"
    by (simp add: ids)
  have keys: "map componentName (processedTemplates serializeArguments default [?b, ?a])
      = [''a'', ''b'']"
    by (simp add: processedTemplates_def ids)
  note inst = functions_in_identifier_order [where ser = serializeArguments
      and localeCompare = default and ts = "[?b, ?a]" and ts' = "[?a, ?b]"]
  from inst [THEN conjunct2, THEN conjunct1]
  have s: "Sorting_Algorithms.sorted default [''a'', ''b'']"
    unfolding keys .
  from inst [THEN conjunct2, THEN conjunct2, THEN conjunct2, THEN conjunct2, THEN mp,
      OF conjI, OF p h]
  have m: "main serializeArguments default [?a, ?b] = main serializeArguments default [?b, ?a]" .
  have less: "compare default (template_id ?a) (template_id ?b) = Less"
    by (simp add: ids)
  show ?thesis
    by (intro conjI; (rule p less keys s m))
qed

end
